theory Spec2Isabelle
  imports Main "HOL-Library.Sublist"
begin

section \<open>Strings\<close>

text \<open>
  A Go string is a sequence of bytes; it is modelled as a \<^typ>\<open>string\<close>, one
  \<^typ>\<open>char\<close> per byte. The functions of package \<open>strings\<close> that the parser calls
  are written out below with the results the Go library gives.
\<close>

text \<open>\<open>strings.Contains(s, sub)\<close>: some suffix of \<open>s\<close> starts with \<open>sub\<close>.\<close>

fun Contains :: "string \<Rightarrow> string \<Rightarrow> bool" where
  "Contains [] sub = (sub = [])"
| "Contains (x # xs) sub = (prefix sub (x # xs) \<or> Contains xs sub)"

text \<open>\<open>strings.HasPrefix(s, p)\<close>.\<close>

definition HasPrefix :: "string \<Rightarrow> string \<Rightarrow> bool" where
  "HasPrefix s p = prefix p s"

text \<open>\<open>strings.Index(s, sub)\<close> and \<open>strings.LastIndex(s, sub)\<close>: the byte offset of
  the first and of the last occurrence, \<open>-1\<close> when there is none.\<close>

fun Index :: "string \<Rightarrow> string \<Rightarrow> int" where
  "Index [] sub = (if sub = [] then 0 else -1)"
| "Index (x # xs) sub =
     (if prefix sub (x # xs) then 0
      else (let r = Index xs sub in if r = -1 then -1 else r + 1))"

fun LastIndex :: "string \<Rightarrow> string \<Rightarrow> int" where
  "LastIndex [] sub = (if sub = [] then 0 else -1)"
| "LastIndex (x # xs) sub =
     (let r = LastIndex xs sub in
      if r \<noteq> -1 then r + 1 else if prefix sub (x # xs) then 0 else -1)"

text \<open>The slice expression \<open>s[lo:hi]\<close>. Go panics unless \<open>0 \<le> lo \<le> hi \<le> len(s)\<close>;
  the one slice expression of the parser is guarded so that the bounds hold
  (lemma \<open>ExtractJSON_bounds\<close>).\<close>

definition slice :: "string \<Rightarrow> int \<Rightarrow> int \<Rightarrow> string" where
  "slice s lo hi = take (nat (hi - lo)) (drop (nat lo) s)"

text \<open>\<open>strings.Split(s, sep)\<close> for a separator of one byte: the pieces between the
  occurrences of the separator, one more piece than there are separators.\<close>

fun Split :: "string \<Rightarrow> char \<Rightarrow> string list" where
  "Split [] sep = [[]]"
| "Split (x # xs) sep =
     (if x = sep then [] # Split xs sep
      else (case Split xs sep of [] \<Rightarrow> [[x]] | p # ps \<Rightarrow> (x # p) # ps))"

text \<open>
  \<open>strings.TrimSpace\<close> removes the leading and the trailing white space
  \<open>unicode.IsSpace\<close> accepts. On the bytes of the string these are the UTF-8
  encodings of U+0009..U+000D, U+0020, U+0085, U+00A0, U+1680, U+2000..U+200A,
  U+2028, U+2029, U+202F, U+205F and U+3000. No encoding is a prefix or a suffix of
  another one, and a byte that does not start or end one of them is never removed.
\<close>

definition spaceRunes :: "string list" where
  "spaceRunes =
    [[CHR 0x09], [CHR 0x0A], [CHR 0x0B], [CHR 0x0C], [CHR 0x0D], [CHR 0x20],
     [CHR 0xC2, CHR 0x85], [CHR 0xC2, CHR 0xA0],
     [CHR 0xE1, CHR 0x9A, CHR 0x80],
     [CHR 0xE2, CHR 0x80, CHR 0x80], [CHR 0xE2, CHR 0x80, CHR 0x81],
     [CHR 0xE2, CHR 0x80, CHR 0x82], [CHR 0xE2, CHR 0x80, CHR 0x83],
     [CHR 0xE2, CHR 0x80, CHR 0x84], [CHR 0xE2, CHR 0x80, CHR 0x85],
     [CHR 0xE2, CHR 0x80, CHR 0x86], [CHR 0xE2, CHR 0x80, CHR 0x87],
     [CHR 0xE2, CHR 0x80, CHR 0x88], [CHR 0xE2, CHR 0x80, CHR 0x89],
     [CHR 0xE2, CHR 0x80, CHR 0x8A],
     [CHR 0xE2, CHR 0x80, CHR 0xA8], [CHR 0xE2, CHR 0x80, CHR 0xA9],
     [CHR 0xE2, CHR 0x80, CHR 0xAF],
     [CHR 0xE2, CHR 0x81, CHR 0x9F],
     [CHR 0xE3, CHR 0x80, CHR 0x80]]"

text \<open>The width in bytes of the white-space rune the string starts with, and of the
  one it ends with; 0 when it starts (ends) with none.\<close>

definition leadingSpace :: "string \<Rightarrow> nat" where
  "leadingSpace s = (case find (\<lambda>w. prefix w s) spaceRunes of None \<Rightarrow> 0 | Some w \<Rightarrow> length w)"

definition trailingSpace :: "string \<Rightarrow> nat" where
  "trailingSpace s = (case find (\<lambda>w. suffix w s) spaceRunes of None \<Rightarrow> 0 | Some w \<Rightarrow> length w)"

lemma leadingSpace_le: "leadingSpace s \<le> length s"
  by (auto simp: leadingSpace_def prefix_def split: option.splits dest!: find_Some_iff[THEN iffD1])

lemma trailingSpace_le: "trailingSpace s \<le> length s"
  by (auto simp: trailingSpace_def suffix_def split: option.splits dest!: find_Some_iff[THEN iffD1])

function TrimLeft :: "string \<Rightarrow> string" where
  "TrimLeft s = (if leadingSpace s = 0 then s else TrimLeft (drop (leadingSpace s) s))"
  by pat_completeness auto
termination
proof (relation "measure length")
  fix s :: string
  assume "leadingSpace s \<noteq> 0"
  moreover have "leadingSpace s \<le> length s" by (rule leadingSpace_le)
  ultimately show "(drop (leadingSpace s) s, s) \<in> measure length" by simp
qed simp

function TrimRight :: "string \<Rightarrow> string" where
  "TrimRight s =
     (if trailingSpace s = 0 then s else TrimRight (take (length s - trailingSpace s) s))"
  by pat_completeness auto
termination
proof (relation "measure length")
  fix s :: string
  assume "trailingSpace s \<noteq> 0"
  moreover have "trailingSpace s \<le> length s" by (rule trailingSpace_le)
  ultimately show "(take (length s - trailingSpace s) s, s) \<in> measure length" by simp
qed simp

declare TrimLeft.simps [simp del] TrimRight.simps [simp del]

definition TrimSpace :: "string \<Rightarrow> string" where
  "TrimSpace s = TrimRight (TrimLeft s)"

section \<open>Regular expressions\<close>

text \<open>
  Package \<open>regexp\<close> returns the match that begins leftmost in the input and, among
  those, the one a backtracking search finds first. The matcher below is that
  backtracking search, in continuation-passing style, for the syntax the three patterns
  of the parser use. It works on bytes; every literal of the three patterns is ASCII,
  so that a match it finds begins and ends where Go's rune-wise matcher does.

  The classes: \<open>\w\<close> is \<open>[0-9A-Za-z_]\<close>, \<open>\s\<close> is \<open>[\t\n\f\r ]\<close>,
  \<open>[\w.]\<close>, the dot under flag \<open>s\<close> (any byte) and the plain dot (any byte but a
  newline).
\<close>

datatype cclass = Word | Space | WordDot | AnyChar | NotNewline

definition isWord :: "char \<Rightarrow> bool" where
  "isWord x =
     (let n = (of_char x :: nat) in
      (48 \<le> n \<and> n \<le> 57) \<or> (65 \<le> n \<and> n \<le> 90) \<or> n = 95 \<or> (97 \<le> n \<and> n \<le> 122))"

fun inClass :: "cclass \<Rightarrow> char \<Rightarrow> bool" where
  "inClass Word x = isWord x"
| "inClass Space x = (x \<in> set [CHR 0x09, CHR 0x0A, CHR 0x0C, CHR 0x0D, CHR 0x20])"
| "inClass WordDot x = (isWord x \<or> x = CHR ''.'')"
| "inClass AnyChar x = True"
| "inClass NotNewline x = (x \<noteq> CHR 0x0A)"

text \<open>
  \<open>Lit\<close> is a literal string, \<open>Plus c\<close>, \<open>Star c\<close> and \<open>LazyStar c\<close> are \<open>c+\<close>,
  \<open>c*\<close> and \<open>c*?\<close> for a class \<open>c\<close>, \<open>Opt r\<close> is \<open>r?\<close>, \<open>Cap n r\<close> is the
  \<open>n\<close>-th capturing group and \<open>EndText\<close> is \<open>$\<close> (without flag \<open>m\<close>: the end of
  the text).
\<close>

datatype re =
    Lit string
  | Plus cclass
  | Star cclass
  | LazyStar cclass
  | Opt re
  | Seq re re
  | Alt re re
  | Cap nat re
  | EndText

text \<open>The offsets of the capturing groups that took part in the match.\<close>

type_synonym caps = "nat \<rightharpoonup> nat \<times> nat"

text \<open>A continuation gets the offset reached, the input left and the groups.\<close>

type_synonym 'a cont = "nat \<Rightarrow> string \<Rightarrow> caps \<Rightarrow> 'a option"

fun star :: "cclass \<Rightarrow> nat \<Rightarrow> string \<Rightarrow> caps \<Rightarrow> 'a cont \<Rightarrow> 'a option" where
  "star cl i [] c k = k i [] c"
| "star cl i (x # xs) c k =
     (if inClass cl x
      then (case star cl (Suc i) xs c k of Some r \<Rightarrow> Some r | None \<Rightarrow> k i (x # xs) c)
      else k i (x # xs) c)"

fun lazy :: "cclass \<Rightarrow> nat \<Rightarrow> string \<Rightarrow> caps \<Rightarrow> 'a cont \<Rightarrow> 'a option" where
  "lazy cl i [] c k = k i [] c"
| "lazy cl i (x # xs) c k =
     (case k i (x # xs) c of
        Some r \<Rightarrow> Some r
      | None \<Rightarrow> if inClass cl x then lazy cl (Suc i) xs c k else None)"

fun rmatch :: "re \<Rightarrow> nat \<Rightarrow> string \<Rightarrow> caps \<Rightarrow> 'a cont \<Rightarrow> 'a option" where
  "rmatch (Lit l) i s c k =
     (if prefix l s then k (i + length l) (drop (length l) s) c else None)"
| "rmatch (Plus cl) i s c k =
     (case s of [] \<Rightarrow> None
      | x # xs \<Rightarrow> if inClass cl x then star cl (Suc i) xs c k else None)"
| "rmatch (Star cl) i s c k = star cl i s c k"
| "rmatch (LazyStar cl) i s c k = lazy cl i s c k"
| "rmatch (Opt r) i s c k =
     (case rmatch r i s c k of Some x \<Rightarrow> Some x | None \<Rightarrow> k i s c)"
| "rmatch (Seq a b) i s c k = rmatch a i s c (\<lambda>i' s' c'. rmatch b i' s' c' k)"
| "rmatch (Alt a b) i s c k =
     (case rmatch a i s c k of Some x \<Rightarrow> Some x | None \<Rightarrow> rmatch b i s c k)"
| "rmatch (Cap g r) i s c k = rmatch r i s c (\<lambda>i' s' c'. k i' s' (c'(g \<mapsto> (i, i'))))"
| "rmatch EndText i s c k = (if s = [] then k i s c else None)"

text \<open>A sequence of expressions, as a pattern is written.\<close>

fun seqs :: "re list \<Rightarrow> re" where
  "seqs [] = Lit []"
| "seqs [r] = r"
| "seqs (r # rs) = Seq r (seqs rs)"

text \<open>The number of capturing groups (\<open>NumSubexp\<close>).\<close>

fun numSubexp :: "re \<Rightarrow> nat" where
  "numSubexp (Opt r) = numSubexp r"
| "numSubexp (Seq a b) = numSubexp a + numSubexp b"
| "numSubexp (Alt a b) = numSubexp a + numSubexp b"
| "numSubexp (Cap g r) = Suc (numSubexp r)"
| "numSubexp r = 0"

text \<open>A match: where it starts, where it ends, and its groups.\<close>

type_synonym rxmatch = "nat \<times> nat \<times> caps"

definition accept :: "nat \<Rightarrow> rxmatch cont" where
  "accept st i s c = Some (st, i, c)"

text \<open>The leftmost match in the input \<open>s\<close>, which begins at offset \<open>i\<close> of the text.\<close>

fun search :: "re \<Rightarrow> nat \<Rightarrow> string \<Rightarrow> rxmatch option" where
  "search r i [] = rmatch r i [] Map.empty (accept i)"
| "search r i (x # xs) =
     (case rmatch r i (x # xs) Map.empty (accept i) of
        Some res \<Rightarrow> Some res
      | None \<Rightarrow> search r (Suc i) xs)"

text \<open>
  What an expression can consume, without the order of the alternatives and without
  the groups: \<open>(s, t) \<in> rel r\<close> when \<open>r\<close> matches a prefix of the input \<open>s\<close>
  and leaves \<open>t\<close>. The matcher only ever succeeds along this relation
  (\<open>rmatch_sound\<close>), and it succeeds whenever the relation allows it
  (\<open>rmatch_complete\<close>).
\<close>

fun rel :: "re \<Rightarrow> (string \<times> string) set" where
  "rel (Lit l) = {(l @ t, t) | t. True}"
| "rel (Plus cl) = {(w @ t, t) | w t. w \<noteq> [] \<and> (\<forall>x \<in> set w. inClass cl x)}"
| "rel (Star cl) = {(w @ t, t) | w t. \<forall>x \<in> set w. inClass cl x}"
| "rel (LazyStar cl) = {(w @ t, t) | w t. \<forall>x \<in> set w. inClass cl x}"
| "rel (Opt r) = rel r \<union> Id"
| "rel (Seq a b) = rel a O rel b"
| "rel (Alt a b) = rel a \<union> rel b"
| "rel (Cap g r) = rel r"
| "rel EndText = {([], [])}"

lemma rel_suffix: "(s, t) \<in> rel r \<Longrightarrow> \<exists>w. s = w @ t"
proof (induction r arbitrary: s t)
  case (Seq a b)
  then show ?case by (fastforce)
qed auto

lemma star_sound:
  "star cl i s c k = Some res \<Longrightarrow>
   \<exists>w t. s = w @ t \<and> (\<forall>x \<in> set w. inClass cl x) \<and> k (i + length w) t c = Some res"
proof (induction s arbitrary: i)
  case Nil
  then show ?case by simp
next
  case (Cons x xs)
  show ?case
  proof (cases "inClass cl x \<and> star cl (Suc i) xs c k = Some res")
    case True
    with Cons.IH[of "Suc i"] obtain w t where
      "xs = w @ t" "\<forall>x \<in> set w. inClass cl x" "k (Suc i + length w) t c = Some res" by blast
    with True show ?thesis
      by (intro exI[of _ "x # w"] exI[of _ t]) simp
  next
    case False
    with Cons.prems have "k i (x # xs) c = Some res"
      by (auto split: if_splits option.splits)
    then show ?thesis by (intro exI[of _ "[]"] exI[of _ "x # xs"]) simp
  qed
qed

lemma lazy_sound:
  "lazy cl i s c k = Some res \<Longrightarrow>
   \<exists>w t. s = w @ t \<and> (\<forall>x \<in> set w. inClass cl x) \<and> k (i + length w) t c = Some res"
proof (induction s arbitrary: i)
  case Nil
  then show ?case by simp
next
  case (Cons x xs)
  show ?case
  proof (cases "k i (x # xs) c")
    case (Some a)
    with Cons.prems show ?thesis by (intro exI[of _ "[]"] exI[of _ "x # xs"]) simp
  next
    case None
    with Cons.prems have "inClass cl x" "lazy cl (Suc i) xs c k = Some res"
      by (auto split: if_splits)
    with Cons.IH[of "Suc i"] obtain w t where
      "xs = w @ t" "\<forall>x \<in> set w. inClass cl x" "k (Suc i + length w) t c = Some res" by blast
    with \<open>inClass cl x\<close> show ?thesis
      by (intro exI[of _ "x # w"] exI[of _ t]) simp
  qed
qed

lemma rmatch_sound:
  "rmatch r i s c k = Some res \<Longrightarrow>
   \<exists>w t c'. s = w @ t \<and> (s, t) \<in> rel r \<and> k (i + length w) t c' = Some res"
proof (induction r arbitrary: i s c k)
  case (Lit l)
  then show ?case by (auto simp: prefix_def split: if_splits)
next
  case (Plus cl)
  then obtain x xs where s: "s = x # xs" and x: "inClass cl x"
    and st: "star cl (Suc i) xs c k = Some res"
    by (auto split: list.splits if_splits)
  from star_sound[OF st] obtain w t where
    "xs = w @ t" "\<forall>x \<in> set w. inClass cl x" "k (Suc i + length w) t c = Some res" by blast
  with s x show ?case
    by (intro exI[of _ "x # w"] exI[of _ t] exI[of _ c]) (auto intro!: exI[of _ "x # w"])
next
  case (Star cl)
  then show ?case using star_sound[of cl i s c k res] by fastforce
next
  case (LazyStar cl)
  then show ?case using lazy_sound[of cl i s c k res] by fastforce
next
  case (Opt r)
  show ?case
  proof (cases "rmatch r i s c k")
    case None
    with Opt.prems have "k i s c = Some res" by simp
    then show ?thesis by (intro exI[of _ "[]"] exI[of _ s] exI[of _ c]) simp
  next
    case (Some a)
    with Opt.prems have "rmatch r i s c k = Some res" by simp
    from Opt.IH[OF this] show ?thesis by auto
  qed
next
  case (Seq a b)
  from Seq.prems have "rmatch a i s c (\<lambda>i' s' c'. rmatch b i' s' c' k) = Some res" by simp
  from Seq.IH(1)[OF this] obtain w1 t1 c1 where
    1: "s = w1 @ t1" "(s, t1) \<in> rel a" "rmatch b (i + length w1) t1 c1 k = Some res" by blast
  from Seq.IH(2)[OF 1(3)] obtain w2 t2 c2 where
    2: "t1 = w2 @ t2" "(t1, t2) \<in> rel b" "k (i + length w1 + length w2) t2 c2 = Some res" by blast
  from 1 2 show ?case
    by (intro exI[of _ "w1 @ w2"] exI[of _ t2] exI[of _ c2]) (auto simp: add.assoc)
next
  case (Alt a b)
  show ?case
  proof (cases "rmatch a i s c k")
    case None
    with Alt.prems have "rmatch b i s c k = Some res" by simp
    from Alt.IH(2)[OF this] show ?thesis by auto
  next
    case (Some x)
    with Alt.prems have "rmatch a i s c k = Some res" by simp
    from Alt.IH(1)[OF this] show ?thesis by auto
  qed
next
  case (Cap g r)
  from Cap.prems have "rmatch r i s c (\<lambda>i' s' c'. k i' s' (c'(g \<mapsto> (i, i')))) = Some res" by simp
  from Cap.IH[OF this] show ?case by auto
next
  case EndText
  then show ?case by (auto split: if_splits)
qed

lemma search_Some:
  "search r i s = Some res \<Longrightarrow>
   \<exists>n \<le> length s. rmatch r (i + n) (drop n s) Map.empty (accept (i + n)) = Some res"
proof (induction s arbitrary: i)
  case Nil
  then show ?case by simp
next
  case (Cons x xs)
  show ?case
  proof (cases "rmatch r i (x # xs) Map.empty (accept i)")
    case None
    with Cons.prems have "search r (Suc i) xs = Some res" by simp
    from Cons.IH[OF this] obtain n where "n \<le> length xs"
      "rmatch r (Suc i + n) (drop n xs) Map.empty (accept (Suc i + n)) = Some res" by blast
    then show ?thesis by (intro exI[of _ "Suc n"]) simp
  next
    case (Some a)
    with Cons.prems show ?thesis by (intro exI[of _ 0]) simp
  qed
qed

lemma search_bounds:
  assumes "search r pos s = Some (st, en, c)"
  shows "pos \<le> st \<and> st \<le> en \<and> en \<le> pos + length s"
proof -
  from search_Some[OF assms] obtain n where n: "n \<le> length s"
    and m: "rmatch r (pos + n) (drop n s) Map.empty (accept (pos + n)) = Some (st, en, c)" by blast
  from rmatch_sound[OF m] obtain w t c' where
    "drop n s = w @ t" "accept (pos + n) (pos + n + length w) t c' = Some (st, en, c)" by blast
  then have "st = pos + n" "en = pos + n + length w" "length w \<le> length s - n"
    by (auto simp: accept_def dest: arg_cong[of _ _ length])
  with n show ?thesis by simp
qed

text \<open>
  The loop of \<open>FindAll\<close>: the leftmost match from \<open>pos\<close> on, then the search
  goes on where the match ended. An empty match directly after the previous match is
  dropped, and after an empty match the search moves on by one position (Go moves on
  by one rune; none of the three patterns of the parser matches the empty string).
\<close>

function allMatches :: "re \<Rightarrow> nat \<Rightarrow> string \<Rightarrow> nat option \<Rightarrow> rxmatch list" where
  "allMatches r pos s prevMatchEnd =
     (case search r pos s of
        None \<Rightarrow> []
      | Some (st, en, c) \<Rightarrow>
          if en = pos
          then (if prevMatchEnd = Some st then [] else [(st, en, c)]) @
               (case s of [] \<Rightarrow> [] | x # xs \<Rightarrow> allMatches r (Suc pos) xs (Some en))
          else (st, en, c) # allMatches r en (drop (en - pos) s) (Some en))"
  by pat_completeness auto
termination
proof (relation "measure (\<lambda>(r, pos, s, prev). length s)")
  fix r pos s and prevMatchEnd :: "nat option" and x2 st y en c
  assume "search r pos s = Some x2" "(st, y) = x2" "(en, c) = y" "en \<noteq> pos"
  then have "search r pos s = Some (st, en, c)" by simp
  from search_bounds[OF this] \<open>en \<noteq> pos\<close> have "pos < en" "en \<le> pos + length s" by auto
  then show "((r, en, drop (en - pos) s, Some en), r, pos, s, prevMatchEnd)
      \<in> measure (\<lambda>(r, pos, s, prev). length s)" by auto
qed auto

declare allMatches.simps [simp del]

text \<open>\<open>FindAllStringSubmatchIndex(s, -1)\<close>: all successive matches, as offsets.\<close>

definition FindAllStringSubmatchIndex :: "re \<Rightarrow> string \<Rightarrow> rxmatch list" where
  "FindAllStringSubmatchIndex r s = allMatches r 0 s None"

text \<open>The strings of a match: the text of the match, then the text of each group, the
  empty string for a group that took no part.\<close>

definition substr :: "string \<Rightarrow> nat \<Rightarrow> nat \<Rightarrow> string" where
  "substr s a b = take (b - a) (drop a s)"

fun submatches :: "re \<Rightarrow> string \<Rightarrow> rxmatch \<Rightarrow> string list" where
  "submatches r s (st, en, c) =
     substr s st en #
     map (\<lambda>g. case c g of None \<Rightarrow> [] | Some (a, b) \<Rightarrow> substr s a b) [1..<Suc (numSubexp r)]"

definition FindAllStringSubmatch :: "re \<Rightarrow> string \<Rightarrow> string list list" where
  "FindAllStringSubmatch r s = map (submatches r s) (FindAllStringSubmatchIndex r s)"

definition FindStringSubmatch :: "re \<Rightarrow> string \<Rightarrow> string list option" where
  "FindStringSubmatch r s = map_option (submatches r s) (search r 0 s)"

section \<open>The parser\<close>

type_synonym Channel = string

definition ChannelAnalysis :: Channel where "ChannelAnalysis = ''analysis''"
definition ChannelCommentary :: Channel where "ChannelCommentary = ''commentary''"
definition ChannelFinal :: Channel where "ChannelFinal = ''final''"

record Message =
  Role :: string
  Channel :: Channel
  Content :: string
  To :: string
  IsCall :: bool

record ParserConfig =
  StrictMode :: bool
  DefaultRole :: string

record Parser =
  messagePattern :: re
  channelPattern :: re
  functionPattern :: re
  config :: ParserConfig

definition DefaultConfig :: ParserConfig where
  "DefaultConfig = \<lparr>StrictMode = False, DefaultRole = ''assistant''\<rparr>"

text \<open>
  The three patterns of \<open>NewParserWithConfig\<close>:
  \<^verbatim>\<open>(?s)(?:<\|start\|>)?(\w+)?<\|channel\|>(\w+)(?:\s+to=([\w.]+))?(?:\s*<\|constrain\|>\w+)?<\|message\|>(.*?)(?:<\|(?:end|call|return)\|>|$)\<close>,
  \<^verbatim>\<open><\|channel\|>(\w+)<\|message\|>(.*?)(?:<\|end\|>|$)\<close> and
  \<^verbatim>\<open>FUNCTION_CALL:\s*(\w+)\((.*?)\)\<close>.
\<close>

definition NewParserWithConfig :: "ParserConfig \<Rightarrow> Parser" where
  "NewParserWithConfig cfg =
    \<lparr>messagePattern = seqs
       [Opt (Lit ''<|start|>''), Opt (Cap 1 (Plus Word)), Lit ''<|channel|>'', Cap 2 (Plus Word),
        Opt (seqs [Plus Space, Lit ''to='', Cap 3 (Plus WordDot)]),
        Opt (seqs [Star Space, Lit ''<|constrain|>'', Plus Word]),
        Lit ''<|message|>'', Cap 4 (LazyStar AnyChar),
        Alt (seqs [Lit ''<|'', Alt (Lit ''end'') (Alt (Lit ''call'') (Lit ''return'')), Lit ''|>''])
            EndText],
     channelPattern = seqs
       [Lit ''<|channel|>'', Cap 1 (Plus Word), Lit ''<|message|>'', Cap 2 (LazyStar NotNewline),
        Alt (Lit ''<|end|>'') EndText],
     functionPattern = seqs
       [Lit ''FUNCTION_CALL:'', Star Space, Cap 1 (Plus Word), Lit ''('',
        Cap 2 (LazyStar NotNewline), Lit '')''],
     config = cfg\<rparr>"

definition NewParser :: Parser where
  "NewParser = NewParserWithConfig DefaultConfig"

definition isValidChannel :: "Channel \<Rightarrow> bool" where
  "isValidChannel channel =
     (channel = ChannelAnalysis \<or> channel = ChannelCommentary \<or> channel = ChannelFinal)"

text \<open>The error of \<open>ParseResponse\<close>, \<open>invalid channel: %s\<close>, with the channel it names.\<close>

datatype parse_error = InvalidChannel Channel

text \<open>The message the first loop of \<open>ParseResponse\<close> builds from a match of the
  message pattern: \<open>match[1]\<close> is the role, \<open>match[2]\<close> the channel, \<open>match[3]\<close> the
  target and \<open>match[4]\<close> the content.\<close>

definition fullFormMessage :: "Parser \<Rightarrow> string list \<Rightarrow> Message" where
  "fullFormMessage p match =
    \<lparr>Role = (if match ! 1 \<noteq> [] then match ! 1 else DefaultRole (config p)),
     Channel = match ! 2,
     Content = TrimSpace (match ! 4),
     To = match ! 3,
     IsCall = Contains (match ! 0) ''<|call|>''\<rparr>"

fun parseFullForm :: "Parser \<Rightarrow> string list list \<Rightarrow> Message list \<Rightarrow> parse_error + Message list" where
  "parseFullForm p [] messages = Inr messages"
| "parseFullForm p (match # matches) messages =
     (let msg = fullFormMessage p match in
      if StrictMode (config p) \<and> \<not> isValidChannel (Channel msg)
      then Inl (InvalidChannel (Channel msg))
      else parseFullForm p matches (messages @ [msg]))"

text \<open>The message the second loop builds from a match of the channel pattern.\<close>

definition simplifiedMessage :: "Parser \<Rightarrow> string list \<Rightarrow> Message" where
  "simplifiedMessage p match =
    \<lparr>Role = DefaultRole (config p),
     Channel = match ! 1,
     Content = TrimSpace (match ! 2),
     To = [],
     IsCall = False\<rparr>"

fun parseSimplified :: "Parser \<Rightarrow> string list list \<Rightarrow> Message list \<Rightarrow> parse_error + Message list" where
  "parseSimplified p [] messages = Inr messages"
| "parseSimplified p (match # matches) messages =
     (let msg = simplifiedMessage p match in
      if StrictMode (config p) \<and> \<not> isValidChannel (Channel msg)
      then Inl (InvalidChannel (Channel msg))
      else parseSimplified p matches (messages @ [msg]))"

text \<open>The \<open>FUNCTION_CALL\<close> format, tried when there is no message yet.\<close>

definition legacyCall :: "Parser \<Rightarrow> string \<Rightarrow> Message list \<Rightarrow> Message list" where
  "legacyCall p content messages =
     (if length messages = 0 \<and> Contains content ''FUNCTION_CALL:''
      then (case FindStringSubmatch (functionPattern p) content of
              Some match \<Rightarrow>
                messages @
                [\<lparr>Role = DefaultRole (config p), Channel = ChannelCommentary,
                  Content = match ! 2, To = ''functions.'' @ match ! 1, IsCall = True\<rparr>]
            | None \<Rightarrow> messages)
      else messages)"

text \<open>The plain final message, when there is still no message and the mode is not strict.\<close>

definition plainFinal :: "Parser \<Rightarrow> string \<Rightarrow> Message list \<Rightarrow> Message list" where
  "plainFinal p content messages =
     (if length messages = 0 \<and> \<not> StrictMode (config p) \<and> content \<noteq> []
      then messages @
           [\<lparr>Role = DefaultRole (config p), Channel = ChannelFinal,
             Content = content, To = [], IsCall = False\<rparr>]
      else messages)"

definition ParseResponse :: "Parser \<Rightarrow> string \<Rightarrow> parse_error + Message list" where
  "ParseResponse p content =
     (if content = [] then Inr []
      else
        case parseFullForm p (FindAllStringSubmatch (messagePattern p) content) [] of
          Inl err \<Rightarrow> Inl err
        | Inr messages \<Rightarrow>
            (case (if length messages = 0 \<and> Contains content ''<|channel|>''
                   then parseSimplified p (FindAllStringSubmatch (channelPattern p) content) messages
                   else Inr messages) of
               Inl err \<Rightarrow> Inl err
             | Inr messages \<Rightarrow> Inr (plainFinal p content (legacyCall p content messages))))"

text \<open>The loop of \<open>ExtractFinalMessage\<close> over the messages.\<close>

fun firstFinal :: "Message list \<Rightarrow> string" where
  "firstFinal [] = []"
| "firstFinal (msg # messages) =
     (if Channel msg = ChannelFinal \<and> \<not> IsCall msg
      then (if \<not> HasPrefix (Content msg) ''FUNCTION_CALL:'' then Content msg
            else firstFinal messages)
      else firstFinal messages)"

definition ExtractFinalMessage :: "Parser \<Rightarrow> string \<Rightarrow> string" where
  "ExtractFinalMessage p content =
     (case ParseResponse p content of
        Inl err \<Rightarrow> (if \<not> StrictMode (config p) then content else [])
      | Inr messages \<Rightarrow>
          if length messages = 0
          then (if \<not> StrictMode (config p) then content else [])
          else firstFinal messages)"

text \<open>The loop of \<open>ExtractFunctionCall\<close> over the messages.\<close>

fun firstCall :: "Message list \<Rightarrow> (string \<times> string \<times> bool) option" where
  "firstCall [] = None"
| "firstCall (msg # messages) =
     (if IsCall msg \<and> To msg \<noteq> []
      then (let parts = Split (To msg) CHR ''.'' in
            if length parts \<ge> 2 then Some (parts ! 1, Content msg, True)
            else firstCall messages)
      else firstCall messages)"

definition ExtractFunctionCall :: "Parser \<Rightarrow> string \<Rightarrow> string \<times> string \<times> bool" where
  "ExtractFunctionCall p content =
     (case ParseResponse p content of
        Inl err \<Rightarrow> ([], [], False)
      | Inr messages \<Rightarrow>
          (case firstCall messages of
             Some r \<Rightarrow> r
           | None \<Rightarrow>
               (case FindStringSubmatch (functionPattern p) content of
                  Some match \<Rightarrow> (match ! 1, match ! 2, True)
                | None \<Rightarrow> ([], [], False))))"

text \<open>
  \<open>ExtractJSON\<close> hands the text between the braces to \<open>json.Unmarshal\<close>, which is
  not part of the parser: it is the parameter \<open>Unmarshal\<close>, which gives the decoded
  object or the error of the decoder.
\<close>

datatype 'e json_error = NoJSONFound | MalformedJSON 'e

definition ExtractJSON :: "(string \<Rightarrow> 'e + 'j) \<Rightarrow> Parser \<Rightarrow> string \<Rightarrow> 'e json_error + 'j" where
  "ExtractJSON Unmarshal p content =
     (let jsonStart = Index content ''{'';
          jsonEnd = LastIndex content ''}''
      in if jsonStart = -1 \<or> jsonEnd = -1 \<or> jsonEnd < jsonStart then Inl NoJSONFound
         else (case Unmarshal (slice content jsonStart (jsonEnd + 1)) of
                 Inl err \<Rightarrow> Inl (MalformedJSON err)
               | Inr result \<Rightarrow> Inr result))"

section \<open>The final message\<close>

lemma firstFinal_find:
  "firstFinal messages =
     (case find (\<lambda>m. Channel m = ChannelFinal \<and> \<not> IsCall m \<and>
                     \<not> prefix ''FUNCTION_CALL:'' (Content m)) messages of
        Some m \<Rightarrow> Content m | None \<Rightarrow> [])"
  by (induction messages) (simp_all add: HasPrefix_def)

text \<open>
  C2. When \<open>ParseResponse\<close> succeeds with at least one message,
  \<open>ExtractFinalMessage\<close> returns the content of the first message, in order, that is
  on the final channel, is not a call and whose content does not begin with
  \<open>FUNCTION_CALL:\<close>, and the empty string when there is no such message. The
  message whose content it returns is never on the analysis channel.
\<close>

theorem ExtractFinalMessage_first_final:
  assumes "ParseResponse p content = Inr messages" and "messages \<noteq> []"
  shows "ExtractFinalMessage p content =
           (case find (\<lambda>m. Channel m = ChannelFinal \<and> \<not> IsCall m \<and>
                          \<not> prefix ''FUNCTION_CALL:'' (Content m)) messages of
              Some m \<Rightarrow> Content m | None \<Rightarrow> []) \<and>
         (\<forall>m. find (\<lambda>m. Channel m = ChannelFinal \<and> \<not> IsCall m \<and>
                          \<not> prefix ''FUNCTION_CALL:'' (Content m)) messages = Some m
              \<longrightarrow> Channel m \<noteq> ChannelAnalysis)"
proof
  from assms show "ExtractFinalMessage p content =
           (case find (\<lambda>m. Channel m = ChannelFinal \<and> \<not> IsCall m \<and>
                          \<not> prefix ''FUNCTION_CALL:'' (Content m)) messages of
              Some m \<Rightarrow> Content m | None \<Rightarrow> [])"
    by (simp add: ExtractFinalMessage_def firstFinal_find)
next
  show "\<forall>m. find (\<lambda>m. Channel m = ChannelFinal \<and> \<not> IsCall m \<and>
                          \<not> prefix ''FUNCTION_CALL:'' (Content m)) messages = Some m
              \<longrightarrow> Channel m \<noteq> ChannelAnalysis"
    by (auto simp: find_Some_iff ChannelFinal_def ChannelAnalysis_def)
qed

theorem ExtractFinalMessage_first_final_witness:
  "ParseResponse NewParser ''<|channel|>analysis<|message|>a<|end|><|channel|>final<|message|>b<|end|>'' =
     Inr [\<lparr>Role = ''assistant'', Channel = ''analysis'', Content = ''a'', To = [], IsCall = False\<rparr>,
          \<lparr>Role = ''assistant'', Channel = ''final'', Content = ''b'', To = [], IsCall = False\<rparr>] \<and>
   ExtractFinalMessage NewParser ''<|channel|>analysis<|message|>a<|end|><|channel|>final<|message|>b<|end|>'' = ''b''"
proof -
  have h: "ParseResponse NewParser ''<|channel|>analysis<|message|>a<|end|><|channel|>final<|message|>b<|end|>'' =
     Inr [\<lparr>Role = ''assistant'', Channel = ''analysis'', Content = ''a'', To = [], IsCall = False\<rparr>,
          \<lparr>Role = ''assistant'', Channel = ''final'', Content = ''b'', To = [], IsCall = False\<rparr>]"
    by code_simp
  from ExtractFinalMessage_first_final[OF h] h show ?thesis
    by (simp add: ChannelFinal_def ChannelAnalysis_def)
qed

section \<open>Validation of the channel\<close>

lemma Channel_fullFormMessage [simp]: "Channel (fullFormMessage p match) = match ! 2"
  by (simp add: fullFormMessage_def)

lemma Channel_simplifiedMessage [simp]: "Channel (simplifiedMessage p match) = match ! 1"
  by (simp add: simplifiedMessage_def)

lemma parseFullForm_eq:
  "parseFullForm p matches acc =
     (case (if StrictMode (config p)
            then find (\<lambda>ch. \<not> isValidChannel ch) (map (\<lambda>match. match ! 2) matches)
            else None) of
        Some ch \<Rightarrow> Inl (InvalidChannel ch)
      | None \<Rightarrow> Inr (acc @ map (fullFormMessage p) matches))"
  by (induction matches arbitrary: acc) (auto simp: Let_def split: option.splits)

lemma parseSimplified_eq:
  "parseSimplified p matches acc =
     (case (if StrictMode (config p)
            then find (\<lambda>ch. \<not> isValidChannel ch) (map (\<lambda>match. match ! 1) matches)
            else None) of
        Some ch \<Rightarrow> Inl (InvalidChannel ch)
      | None \<Rightarrow> Inr (acc @ map (simplifiedMessage p) matches))"
  by (induction matches arbitrary: acc) (auto simp: Let_def split: option.splits)

text \<open>The channels the first two loops of \<open>ParseResponse\<close> check, in the order they
  check them: those of the matches of the message pattern, or when there is none and
  the text has a channel marker, those of the matches of the channel pattern.\<close>

definition discoveredChannels :: "Parser \<Rightarrow> string \<Rightarrow> Channel list" where
  "discoveredChannels p content =
     (let full = map (\<lambda>match. match ! 2) (FindAllStringSubmatch (messagePattern p) content) in
      if full \<noteq> [] then full
      else if Contains content ''<|channel|>''
      then map (\<lambda>match. match ! 1) (FindAllStringSubmatch (channelPattern p) content)
      else [])"

lemma find_None_iff': "(find P xs = None) = (\<forall>x \<in> set xs. \<not> P x)"
  by (induction xs) auto

lemma NewParser_no_match_empty:
  "FindAllStringSubmatch (messagePattern (NewParserWithConfig cfg)) [] = []"
  "FindAllStringSubmatch (channelPattern (NewParserWithConfig cfg)) [] = []"
  by (simp_all add: FindAllStringSubmatch_def FindAllStringSubmatchIndex_def
      NewParserWithConfig_def allMatches.simps[of _ _ "[]"])

text \<open>
  C1. Under strict validation, when a channel found by the full-form rule or by the
  simplified-form rule is not one of analysis, commentary and final,
  \<open>ParseResponse\<close> fails with \<open>InvalidChannel\<close> of the first such channel, and
  the failure carries no message. Without strict validation \<open>ParseResponse\<close> never
  fails.
\<close>

theorem ParseResponse_strict_validation:
  "(StrictMode cfg \<and>
      (\<exists>ch \<in> set (discoveredChannels (NewParserWithConfig cfg) content). \<not> isValidChannel ch) \<longrightarrow>
      (\<exists>ch. find (\<lambda>ch. \<not> isValidChannel ch) (discoveredChannels (NewParserWithConfig cfg) content)
              = Some ch \<and>
            ParseResponse (NewParserWithConfig cfg) content = Inl (InvalidChannel ch))) \<and>
   (\<not> StrictMode cfg \<longrightarrow> (\<exists>messages. ParseResponse (NewParserWithConfig cfg) content = Inr messages))"
proof (intro conjI impI)
  let ?p = "NewParserWithConfig cfg"
  have cfg: "config ?p = cfg" by (simp add: NewParserWithConfig_def)
  {
    assume "\<not> StrictMode cfg"
    then show "\<exists>messages. ParseResponse ?p content = Inr messages"
      by (simp add: ParseResponse_def parseFullForm_eq parseSimplified_eq cfg)
  }
  assume a: "StrictMode cfg \<and> (\<exists>ch \<in> set (discoveredChannels ?p content). \<not> isValidChannel ch)"
  then obtain ch where ch: "find (\<lambda>ch. \<not> isValidChannel ch) (discoveredChannels ?p content) = Some ch"
    by (cases "find (\<lambda>ch. \<not> isValidChannel ch) (discoveredChannels ?p content)")
       (auto simp: find_None_iff')
  from a have ne: "content \<noteq> []"
    by (auto simp: discoveredChannels_def NewParser_no_match_empty)
  have "ParseResponse ?p content = Inl (InvalidChannel ch)"
  proof (cases "FindAllStringSubmatch (messagePattern ?p) content = []")
    case True
    with ch have "Contains content ''<|channel|>''"
      and "find (\<lambda>ch. \<not> isValidChannel ch)
             (map (\<lambda>match. match ! 1) (FindAllStringSubmatch (channelPattern ?p) content)) = Some ch"
      by (auto simp: discoveredChannels_def split: if_splits)
    with True a ne show ?thesis
      by (simp add: ParseResponse_def parseFullForm_eq parseSimplified_eq cfg)
  next
    case False
    with ch have "find (\<lambda>ch. \<not> isValidChannel ch)
             (map (\<lambda>match. match ! 2) (FindAllStringSubmatch (messagePattern ?p) content)) = Some ch"
      by (auto simp: discoveredChannels_def)
    with a ne show ?thesis
      by (simp add: ParseResponse_def parseFullForm_eq cfg)
  qed
  with ch show "\<exists>ch. find (\<lambda>ch. \<not> isValidChannel ch) (discoveredChannels ?p content) = Some ch \<and>
            ParseResponse ?p content = Inl (InvalidChannel ch)" by blast
qed

theorem ParseResponse_strict_validation_witness:
  "discoveredChannels (NewParserWithConfig \<lparr>StrictMode = True, DefaultRole = ''assistant''\<rparr>)
     ''<|channel|>bogus<|message|>x<|end|>'' = [''bogus''] \<and>
   \<not> isValidChannel ''bogus'' \<and>
   ParseResponse (NewParserWithConfig \<lparr>StrictMode = True, DefaultRole = ''assistant''\<rparr>)
     ''<|channel|>bogus<|message|>x<|end|>'' = Inl (InvalidChannel ''bogus'') \<and>
   (\<exists>messages. ParseResponse (NewParserWithConfig \<lparr>StrictMode = False, DefaultRole = ''assistant''\<rparr>)
     ''<|channel|>bogus<|message|>x<|end|>'' = Inr messages)"
proof -
  have d: "discoveredChannels (NewParserWithConfig \<lparr>StrictMode = True, DefaultRole = ''assistant''\<rparr>)
     ''<|channel|>bogus<|message|>x<|end|>'' = [''bogus'']"
    by code_simp
  have v: "\<not> isValidChannel ''bogus''"
    by code_simp
  from d v
    ParseResponse_strict_validation[of "\<lparr>StrictMode = True, DefaultRole = ''assistant''\<rparr>"
      "''<|channel|>bogus<|message|>x<|end|>''"]
    ParseResponse_strict_validation[of "\<lparr>StrictMode = False, DefaultRole = ''assistant''\<rparr>"
      "''<|channel|>bogus<|message|>x<|end|>''"]
  show ?thesis by simp
qed

section \<open>The plain-text fallback\<close>

text \<open>
  C5. For a non-empty text in which the message pattern, the channel pattern and the
  \<open>FUNCTION_CALL\<close> pattern yield no message, \<open>ParseResponse\<close> returns, without
  strict validation, exactly one message with the default role, the final channel and
  the whole text as content, and with strict validation no message and no error.
\<close>

theorem ParseResponse_plain_fallback:
  assumes "content \<noteq> []"
    and "FindAllStringSubmatch (messagePattern p) content = []"
    and "\<not> Contains content ''<|channel|>'' \<or> FindAllStringSubmatch (channelPattern p) content = []"
    and "\<not> Contains content ''FUNCTION_CALL:'' \<or> FindStringSubmatch (functionPattern p) content = None"
  shows "ParseResponse p content =
           Inr (if StrictMode (config p) then []
                else [\<lparr>Role = DefaultRole (config p), Channel = ChannelFinal,
                        Content = content, To = [], IsCall = False\<rparr>])"
  using assms by (auto simp: ParseResponse_def legacyCall_def plainFinal_def)

theorem ParseResponse_plain_fallback_witness:
  "ParseResponse NewParser ''Plain text message'' =
     Inr [\<lparr>Role = ''assistant'', Channel = ''final'', Content = ''Plain text message'',
           To = [], IsCall = False\<rparr>] \<and>
   ParseResponse (NewParserWithConfig \<lparr>StrictMode = True, DefaultRole = ''assistant''\<rparr>)
     ''Plain text message'' = Inr []"
proof -
  have 1: "FindAllStringSubmatch (messagePattern NewParser) ''Plain text message'' = []"
    by code_simp
  have 2: "\<not> Contains ''Plain text message'' ''<|channel|>''"
    by code_simp
  have 3: "\<not> Contains ''Plain text message'' ''FUNCTION_CALL:''"
    by code_simp
  have 4: "FindAllStringSubmatch (messagePattern
      (NewParserWithConfig \<lparr>StrictMode = True, DefaultRole = ''assistant''\<rparr>)) ''Plain text message'' = []"
    by code_simp
  from ParseResponse_plain_fallback[of "''Plain text message''" NewParser, OF _ 1 disjI1[OF 2] disjI1[OF 3]]
    ParseResponse_plain_fallback[of "''Plain text message''"
      "NewParserWithConfig \<lparr>StrictMode = True, DefaultRole = ''assistant''\<rparr>",
      OF _ 4 disjI1[OF 2] disjI1[OF 3]]
  show ?thesis
    by (simp add: NewParser_def NewParserWithConfig_def DefaultConfig_def ChannelFinal_def)
qed

section \<open>The embedded JSON object\<close>

lemma length_takeWhile_less:
  "x \<in> set xs \<Longrightarrow> \<not> P x \<Longrightarrow> length (takeWhile P xs) < length xs"
  by (induction xs) auto

lemma Index_char:
  "Index s [c] =
     (if c \<in> set s then int (length (takeWhile (\<lambda>x. x \<noteq> c) s)) else -1)"
  by (induction s) (auto simp: Let_def)

lemma LastIndex_char:
  "LastIndex s [c] =
     (if c \<in> set s then int (length s) - 1 - int (length (takeWhile (\<lambda>x. x \<noteq> c) (rev s)))
      else -1)"
proof (induction s)
  case Nil
  then show ?case by simp
next
  case (Cons x xs)
  show ?case
  proof (cases "c \<in> set xs")
    case True
    then have "length (takeWhile (\<lambda>x. x \<noteq> c) (rev xs)) < length xs"
      using length_takeWhile_less[of c "rev xs" "\<lambda>x. x \<noteq> c"] by simp
    moreover from True have "takeWhile (\<lambda>x. x \<noteq> c) (rev xs @ [x]) = takeWhile (\<lambda>x. x \<noteq> c) (rev xs)"
      by (intro takeWhile_append1[of c]) auto
    ultimately show ?thesis using True Cons.IH by (simp add: Let_def)
  next
    case False
    then have "takeWhile (\<lambda>x. x \<noteq> c) (rev xs @ [x]) = rev xs @ takeWhile (\<lambda>x. x \<noteq> c) [x]"
      by (intro takeWhile_append2) auto
    with False Cons.IH show ?thesis by (auto simp: Let_def)
  qed
qed

text \<open>When \<open>ExtractJSON\<close> slices the text, the bounds of the slice are in range.\<close>

lemma ExtractJSON_bounds:
  assumes "\<not> (Index content ''{'' = -1 \<or> LastIndex content ''}'' = -1 \<or>
              LastIndex content ''}'' < Index content ''{'')"
  shows "0 \<le> Index content ''{'' \<and> Index content ''{'' \<le> LastIndex content ''}'' + 1 \<and>
         LastIndex content ''}'' + 1 \<le> int (length content)"
proof -
  from assms have b: "CHR ''}'' \<in> set content" "CHR ''{'' \<in> set content"
    by (auto simp: LastIndex_char Index_char split: if_splits)
  then have "content \<noteq> []" by auto
  with assms b show ?thesis
    by (auto simp: LastIndex_char Index_char)
qed

text \<open>
  C6. \<open>ExtractJSON\<close> fails with \<open>NoJSONFound\<close> exactly when the text has no
  \<open>{\<close>, or no \<open>}\<close>, or its last \<open>}\<close> is before its first \<open>{\<close>. Otherwise it
  decodes the text from the first \<open>{\<close> to the last \<open>}\<close>, both included, and returns
  the decoded object, or fails with \<open>MalformedJSON\<close> of the decoder's error.
\<close>

theorem ExtractJSON_first_to_last_brace:
  "(let first = length (takeWhile (\<lambda>x. x \<noteq> CHR ''{'') content);
        last = length content - 1 - length (takeWhile (\<lambda>x. x \<noteq> CHR ''}'') (rev content));
        none = (CHR ''{'' \<notin> set content \<or> CHR ''}'' \<notin> set content \<or> last < first)
    in (ExtractJSON Unmarshal p content = Inl NoJSONFound \<longleftrightarrow> none) \<and>
       (\<not> none \<longrightarrow>
          ExtractJSON Unmarshal p content =
            (case Unmarshal (take (last + 1 - first) (drop first content)) of
               Inl err \<Rightarrow> Inl (MalformedJSON err)
             | Inr result \<Rightarrow> Inr result)))"
proof -
  define first where "first = length (takeWhile (\<lambda>x. x \<noteq> CHR ''{'') content)"
  define last where
    "last = length content - 1 - length (takeWhile (\<lambda>x. x \<noteq> CHR ''}'') (rev content))"
  define none where
    "none = (CHR ''{'' \<notin> set content \<or> CHR ''}'' \<notin> set content \<or> last < first)"
  have i: "CHR ''{'' \<in> set content \<Longrightarrow> Index content ''{'' = int first"
    by (simp add: Index_char first_def)
  have l: "CHR ''}'' \<in> set content \<Longrightarrow> LastIndex content ''}'' = int last"
    using length_takeWhile_less[of "CHR ''}''" "rev content" "\<lambda>x. x \<noteq> CHR ''}''"]
    by (simp add: LastIndex_char last_def)
  have n: "(Index content ''{'' = -1 \<or> LastIndex content ''}'' = -1 \<or>
            LastIndex content ''}'' < Index content ''{'') = none"
    using i l by (auto simp: none_def Index_char LastIndex_char)
  have s: "\<not> none \<Longrightarrow> slice content (Index content ''{'') (LastIndex content ''}'' + 1) =
            take (last + 1 - first) (drop first content)"
    using i l by (auto simp: none_def slice_def nat_diff_distrib' nat_add_distrib)
  have 1: "ExtractJSON Unmarshal p content = Inl NoJSONFound \<longleftrightarrow> none"
    using n by (auto simp: ExtractJSON_def Let_def split: sum.splits)
  have 2: "\<not> none \<Longrightarrow> ExtractJSON Unmarshal p content =
            (case Unmarshal (take (last + 1 - first) (drop first content)) of
               Inl err \<Rightarrow> Inl (MalformedJSON err)
             | Inr result \<Rightarrow> Inr result)"
    using n s by (simp add: ExtractJSON_def Let_def)
  from 1 2 show ?thesis
    unfolding Let_def first_def[symmetric] last_def[symmetric] none_def[symmetric] by blast
qed

theorem ExtractJSON_first_to_last_brace_witness:
  "ExtractJSON (\<lambda>s. if s = ''{k}'' then Inr (1::nat) else Inl s) NewParser ''Some {k} text'' = Inr 1 \<and>
   ExtractJSON (\<lambda>s. if s = ''{k}'' then Inr (1::nat) else Inl s) NewParser ''{k}} text'' =
     Inl (MalformedJSON ''{k}}'') \<and>
   ExtractJSON (\<lambda>s. if s = ''{k}'' then Inr (1::nat) else Inl s) NewParser ''Just plain text'' =
     Inl NoJSONFound"
  using
    ExtractJSON_first_to_last_brace[of "''Some {k} text''"
      "\<lambda>s. if s = ''{k}'' then Inr (1::nat) else Inl s" NewParser]
    ExtractJSON_first_to_last_brace[of "''{k}} text''"
      "\<lambda>s. if s = ''{k}'' then Inr (1::nat) else Inl s" NewParser]
    ExtractJSON_first_to_last_brace[of "''Just plain text''"
      "\<lambda>s. if s = ''{k}'' then Inr (1::nat) else Inl s" NewParser]
  by (simp add: Let_def)

section \<open>The function call\<close>

lemma Split_not_Nil [simp]: "Split s c \<noteq> []"
  by (induction s) (auto split: list.splits)

lemma Split_hd: "hd (Split s c) = takeWhile (\<lambda>x. x \<noteq> c) s"
  by (induction s) (auto split: list.splits)

lemma Split_length: "length (Split s c) = Suc (count_list s c)"
  by (induction s) (auto split: list.splits)

lemma Split_two_parts: "(2 \<le> length (Split s c)) = (c \<in> set s)"
  by (induction s) (auto split: list.splits)

lemma Split_second:
  "c \<in> set s \<Longrightarrow>
   Split s c ! Suc 0 = takeWhile (\<lambda>x. x \<noteq> c) (tl (dropWhile (\<lambda>x. x \<noteq> c) s))"
proof (induction s)
  case Nil
  then show ?case by simp
next
  case (Cons x xs)
  show ?case
  proof (cases "x = c")
    case True
    then show ?thesis using Split_hd[of xs c] Split_not_Nil[of xs c]
      by (cases "Split xs c") (simp_all add: hd_conv_nth)
  next
    case False
    with Cons show ?thesis by (cases "Split xs c") auto
  qed
qed

lemma firstCall_find:
  "firstCall messages =
     (case find (\<lambda>m. IsCall m \<and> To m \<noteq> [] \<and> CHR ''.'' \<in> set (To m)) messages of
        Some m \<Rightarrow>
          Some (takeWhile (\<lambda>x. x \<noteq> CHR ''.'') (tl (dropWhile (\<lambda>x. x \<noteq> CHR ''.'') (To m))),
                Content m, True)
      | None \<Rightarrow> None)"
  by (induction messages) (auto simp: Let_def Split_two_parts Split_second)

text \<open>
  C4, as the code has it. When \<open>ParseResponse\<close> succeeds, \<open>ExtractFunctionCall\<close>
  takes the first message that is a call and whose target is not empty and has at
  least two segments between dots; the function name it returns is the second segment
  of the target, the text between the first dot and the next dot or the end of the
  target (\<open>b\<close> for the target \<open>a.b.c\<close>), and the arguments are the content of the
  message.
\<close>

theorem ExtractFunctionCall_second_segment:
  assumes "ParseResponse p content = Inr messages"
    and "find (\<lambda>m. IsCall m \<and> To m \<noteq> [] \<and> CHR ''.'' \<in> set (To m)) messages = Some msg"
  shows "ExtractFunctionCall p content =
           (takeWhile (\<lambda>x. x \<noteq> CHR ''.'') (tl (dropWhile (\<lambda>x. x \<noteq> CHR ''.'') (To msg))),
            Content msg, True)"
  using assms by (simp add: ExtractFunctionCall_def firstCall_find)

theorem ExtractFunctionCall_second_segment_witness:
  "ParseResponse NewParser ''<|channel|>commentary to=functions.get_weather<|message|>{}<|call|>'' =
     Inr [\<lparr>Role = ''assistant'', Channel = ''commentary'', Content = ''{}'',
           To = ''functions.get_weather'', IsCall = True\<rparr>] \<and>
   ExtractFunctionCall NewParser ''<|channel|>commentary to=functions.get_weather<|message|>{}<|call|>'' =
     (''get_weather'', ''{}'', True)"
proof -
  have h: "ParseResponse NewParser ''<|channel|>commentary to=functions.get_weather<|message|>{}<|call|>'' =
     Inr [\<lparr>Role = ''assistant'', Channel = ''commentary'', Content = ''{}'',
           To = ''functions.get_weather'', IsCall = True\<rparr>]"
    by code_simp
  from ExtractFunctionCall_second_segment[OF h, of "\<lparr>Role = ''assistant'', Channel = ''commentary'',
      Content = ''{}'', To = ''functions.get_weather'', IsCall = True\<rparr>"] h
  show ?thesis by simp
qed

text \<open>The claim as the specification words it, with the name \<open>b.c\<close> for the target
  \<open>a.b.c\<close>, fails: the name returned is \<open>b\<close>.\<close>

theorem ExtractFunctionCall_rest_of_target_counterexample:
  "ParseResponse NewParser ''<|channel|>commentary to=a.b.c<|message|>x<|call|>'' =
     Inr [\<lparr>Role = ''assistant'', Channel = ''commentary'', Content = ''x'',
           To = ''a.b.c'', IsCall = True\<rparr>] \<and>
   ExtractFunctionCall NewParser ''<|channel|>commentary to=a.b.c<|message|>x<|call|>'' =
     (''b'', ''x'', True) \<and>
   fst (ExtractFunctionCall NewParser ''<|channel|>commentary to=a.b.c<|message|>x<|call|>'') \<noteq> ''b.c''"
  by code_simp

section \<open>Trimmed content\<close>

lemma spaceRunes_not_Nil: "w \<in> set spaceRunes \<Longrightarrow> w \<noteq> []"
  by (auto simp: spaceRunes_def)

lemma leadingSpace_0_iff: "(leadingSpace s = 0) = (\<forall>w \<in> set spaceRunes. \<not> prefix w s)"
  by (auto simp: leadingSpace_def find_None_iff find_Some_iff spaceRunes_not_Nil
      split: option.splits)

lemma trailingSpace_0_iff: "(trailingSpace s = 0) = (\<forall>w \<in> set spaceRunes. \<not> suffix w s)"
  by (auto simp: trailingSpace_def find_None_iff find_Some_iff spaceRunes_not_Nil
      split: option.splits)

lemma TrimLeft_leadingSpace: "leadingSpace (TrimLeft s) = 0"
  by (induction s rule: TrimLeft.induct) (subst TrimLeft.simps, simp)

lemma TrimRight_trailingSpace: "trailingSpace (TrimRight s) = 0"
  by (induction s rule: TrimRight.induct) (subst TrimRight.simps, simp)

lemma TrimRight_prefix: "prefix (TrimRight s) s"
proof (induction s rule: TrimRight.induct)
  case (1 s)
  show ?case
  proof (cases "trailingSpace s = 0")
    case True
    then show ?thesis by (subst TrimRight.simps) simp
  next
    case False
    from "1"[OF False] have "prefix (TrimRight (take (length s - trailingSpace s) s)) s"
      by (rule prefix_order.trans) (rule take_is_prefix)
    with False show ?thesis by (subst TrimRight.simps) simp
  qed
qed

lemma TrimSpace_trimmed:
  "leadingSpace (TrimSpace s) = 0 \<and> trailingSpace (TrimSpace s) = 0"
proof -
  have "leadingSpace (TrimRight (TrimLeft s)) = 0"
    using TrimLeft_leadingSpace[of s] TrimRight_prefix[of "TrimLeft s"]
    unfolding leadingSpace_0_iff by (blast intro: prefix_order.trans)
  then show ?thesis by (simp add: TrimSpace_def TrimRight_trailingSpace)
qed

lemma ParseResponse_full_form:
  assumes "ParseResponse p content = Inr messages" and "content \<noteq> []"
    and "FindAllStringSubmatch (messagePattern p) content \<noteq> []"
  shows "messages = map (fullFormMessage p) (FindAllStringSubmatch (messagePattern p) content)"
  using assms
  by (auto simp: ParseResponse_def parseFullForm_eq legacyCall_def plainFinal_def
      split: option.splits if_splits)

lemma ParseResponse_simplified_form:
  assumes "ParseResponse p content = Inr messages" and "content \<noteq> []"
    and "FindAllStringSubmatch (messagePattern p) content = []"
    and "Contains content ''<|channel|>''"
    and "FindAllStringSubmatch (channelPattern p) content \<noteq> []"
  shows "messages = map (simplifiedMessage p) (FindAllStringSubmatch (channelPattern p) content)"
  using assms
  by (auto simp: ParseResponse_def parseSimplified_eq legacyCall_def plainFinal_def
      split: option.splits if_splits)

text \<open>
  C7, as the code has it. Every message that \<open>ParseResponse\<close> builds from a match of
  the message pattern or of the channel pattern has a content with no leading and no
  trailing white space. (The \<open>FUNCTION_CALL\<close> rule and the plain-text fallback
  take their content as it is in the text.)
\<close>

theorem ParseResponse_matched_content_trimmed:
  assumes "ParseResponse p content = Inr messages"
    and "FindAllStringSubmatch (messagePattern p) content \<noteq> [] \<or>
         Contains content ''<|channel|>'' \<and> FindAllStringSubmatch (channelPattern p) content \<noteq> []"
  shows "\<forall>m \<in> set messages. leadingSpace (Content m) = 0 \<and> trailingSpace (Content m) = 0"
proof (cases "content = []")
  case True
  with assms(1) show ?thesis by (simp add: ParseResponse_def)
next
  case ne: False
  show ?thesis
  proof (cases "FindAllStringSubmatch (messagePattern p) content = []")
    case True
    with assms ne have
      "messages = map (simplifiedMessage p) (FindAllStringSubmatch (channelPattern p) content)"
      by (intro ParseResponse_simplified_form) auto
    then show ?thesis by (auto simp: simplifiedMessage_def TrimSpace_trimmed)
  next
    case False
    with assms ne have
      "messages = map (fullFormMessage p) (FindAllStringSubmatch (messagePattern p) content)"
      by (intro ParseResponse_full_form) auto
    then show ?thesis by (auto simp: fullFormMessage_def TrimSpace_trimmed)
  qed
qed

theorem ParseResponse_matched_content_trimmed_witness:
  "ParseResponse NewParser ''<|channel|>final<|message|> Hi  <|end|>'' =
     Inr [\<lparr>Role = ''assistant'', Channel = ''final'', Content = ''Hi'', To = [], IsCall = False\<rparr>] \<and>
   leadingSpace ''Hi'' = 0 \<and> trailingSpace ''Hi'' = 0"
proof -
  have h: "ParseResponse NewParser ''<|channel|>final<|message|> Hi  <|end|>'' =
     Inr [\<lparr>Role = ''assistant'', Channel = ''final'', Content = ''Hi'', To = [], IsCall = False\<rparr>]"
    by code_simp
  have m: "FindAllStringSubmatch (messagePattern NewParser) ''<|channel|>final<|message|> Hi  <|end|>'' \<noteq> []"
    by code_simp
  from ParseResponse_matched_content_trimmed[OF h disjI1[OF m]] h show ?thesis by simp
qed

text \<open>The claim for every message fails: the plain-text fallback and the
  \<open>FUNCTION_CALL\<close> rule keep the white space of the text.\<close>

theorem ParseResponse_content_trimmed_counterexample:
  "ParseResponse NewParser '' x'' =
     Inr [\<lparr>Role = ''assistant'', Channel = ''final'', Content = '' x'', To = [], IsCall = False\<rparr>] \<and>
   leadingSpace '' x'' = 1 \<and>
   ParseResponse NewParser ''FUNCTION_CALL: f( a )'' =
     Inr [\<lparr>Role = ''assistant'', Channel = ''commentary'', Content = '' a '',
           To = ''functions.f'', IsCall = True\<rparr>] \<and>
   leadingSpace '' a '' = 1 \<and> trailingSpace '' a '' = 1"
  by code_simp

section \<open>The final message when there is no message\<close>

lemma ParseResponse_relaxed:
  assumes "\<not> StrictMode (config p)"
  shows "\<exists>messages. ParseResponse p content = Inr messages \<and> (messages = [] \<longleftrightarrow> content = [])"
proof (cases "content = []")
  case True
  then show ?thesis by (simp add: ParseResponse_def)
next
  case False
  with assms show ?thesis
    by (auto simp: ParseResponse_def parseFullForm_eq parseSimplified_eq plainFinal_def)
qed

text \<open>
  C3, as the code has it. \<open>ParseResponse\<close> fails only for a strict parser, and
  \<open>ExtractFinalMessage\<close> then returns the empty string. When \<open>ParseResponse\<close>
  returns no message, \<open>ExtractFinalMessage\<close> returns the empty string for a strict
  parser and the text for a parser that is not strict. A parser that is not strict
  never fails, and it returns no message only for the empty text.
\<close>

theorem ExtractFinalMessage_without_messages:
  "(ParseResponse p content = Inl err \<longrightarrow>
      StrictMode (config p) \<and> ExtractFinalMessage p content = []) \<and>
   (ParseResponse p content = Inr [] \<longrightarrow>
      ExtractFinalMessage p content = (if StrictMode (config p) then [] else content)) \<and>
   (\<not> StrictMode (config p) \<longrightarrow>
      (\<exists>messages. ParseResponse p content = Inr messages \<and> (messages = [] \<longleftrightarrow> content = [])))"
proof (intro conjI impI)
  assume e: "ParseResponse p content = Inl err"
  show "StrictMode (config p)"
  proof (rule ccontr)
    assume "\<not> StrictMode (config p)"
    from ParseResponse_relaxed[OF this, of content] e show False by auto
  qed
  then show "ExtractFinalMessage p content = []"
    using e by (simp add: ExtractFinalMessage_def)
next
  assume "ParseResponse p content = Inr []"
  then show "ExtractFinalMessage p content = (if StrictMode (config p) then [] else content)"
    by (simp add: ExtractFinalMessage_def)
next
  assume "\<not> StrictMode (config p)"
  then show "\<exists>messages. ParseResponse p content = Inr messages \<and> (messages = [] \<longleftrightarrow> content = [])"
    by (rule ParseResponse_relaxed)
qed

theorem ExtractFinalMessage_without_messages_witness:
  "ParseResponse (NewParserWithConfig \<lparr>StrictMode = True, DefaultRole = ''assistant''\<rparr>)
     ''<|channel|>bogus<|message|>x<|end|>'' = Inl (InvalidChannel ''bogus'') \<and>
   ExtractFinalMessage (NewParserWithConfig \<lparr>StrictMode = True, DefaultRole = ''assistant''\<rparr>)
     ''<|channel|>bogus<|message|>x<|end|>'' = [] \<and>
   ParseResponse (NewParserWithConfig \<lparr>StrictMode = True, DefaultRole = ''assistant''\<rparr>)
     ''Plain text'' = Inr [] \<and>
   ExtractFinalMessage (NewParserWithConfig \<lparr>StrictMode = True, DefaultRole = ''assistant''\<rparr>)
     ''Plain text'' = [] \<and>
   ParseResponse NewParser [] = Inr [] \<and>
   ExtractFinalMessage NewParser [] = [] \<and>
   ParseResponse NewParser ''<|channel|>bogus<|message|>x<|end|>'' =
     Inr [\<lparr>Role = ''assistant'', Channel = ''bogus'', Content = ''x'', To = [], IsCall = False\<rparr>]"
proof -
  let ?strict = "NewParserWithConfig \<lparr>StrictMode = True, DefaultRole = ''assistant''\<rparr>"
  have s: "StrictMode (config ?strict)" "\<not> StrictMode (config NewParser)"
    by (simp_all add: NewParser_def NewParserWithConfig_def DefaultConfig_def)
  have 1: "ParseResponse ?strict ''<|channel|>bogus<|message|>x<|end|>'' = Inl (InvalidChannel ''bogus'')"
    by code_simp
  have 2: "ParseResponse ?strict ''Plain text'' = Inr []"
    by code_simp
  have 3: "ParseResponse NewParser [] = Inr []"
    by code_simp
  have 4: "ParseResponse NewParser ''<|channel|>bogus<|message|>x<|end|>'' =
     Inr [\<lparr>Role = ''assistant'', Channel = ''bogus'', Content = ''x'', To = [], IsCall = False\<rparr>]"
    by code_simp
  from s 1 2 3 4
    ExtractFinalMessage_without_messages[of ?strict "''<|channel|>bogus<|message|>x<|end|>''"
      "InvalidChannel ''bogus''"]
    ExtractFinalMessage_without_messages[of ?strict "''Plain text''"]
    ExtractFinalMessage_without_messages[of NewParser "[]"]
    ExtractFinalMessage_without_messages[of NewParser "''<|channel|>bogus<|message|>x<|end|>''"]
  show ?thesis by simp
qed

text \<open>The claim as the specification words it fails: on a text that fails the strict
  validation, a parser that is not strict returns the empty string and not the text.\<close>

theorem ExtractFinalMessage_relaxed_verbatim_counterexample:
  "ParseResponse (NewParserWithConfig \<lparr>StrictMode = True, DefaultRole = ''assistant''\<rparr>)
     ''<|channel|>bogus<|message|>x<|end|>'' = Inl (InvalidChannel ''bogus'') \<and>
   ExtractFinalMessage (NewParserWithConfig \<lparr>StrictMode = False, DefaultRole = ''assistant''\<rparr>)
     ''<|channel|>bogus<|message|>x<|end|>'' = [] \<and>
   ExtractFinalMessage (NewParserWithConfig \<lparr>StrictMode = False, DefaultRole = ''assistant''\<rparr>)
     ''<|channel|>bogus<|message|>x<|end|>'' \<noteq> ''<|channel|>bogus<|message|>x<|end|>''"
  by code_simp

section \<open>The matcher finds a match whenever there is one\<close>

lemma star_fallback: "k i s c \<noteq> None \<Longrightarrow> star cl i s c k \<noteq> None"
  by (cases s) (auto split: option.splits)

lemma star_complete:
  "\<forall>x \<in> set w. inClass cl x \<Longrightarrow> (\<And>c'. k (i + length w) t c' \<noteq> None) \<Longrightarrow>
   star cl i (w @ t) c k \<noteq> None"
proof (induction w arbitrary: i)
  case Nil
  then show ?case using star_fallback[of k i t c cl] by simp
next
  case (Cons x w)
  from Cons.prems have "star cl (Suc i) (w @ t) c k \<noteq> None"
    by (intro Cons.IH) auto
  with Cons.prems show ?case by (auto split: option.splits)
qed

lemma lazy_fallback: "k i s c \<noteq> None \<Longrightarrow> lazy cl i s c k \<noteq> None"
  by (cases s) (auto split: option.splits)

lemma lazy_complete:
  "\<forall>x \<in> set w. inClass cl x \<Longrightarrow> (\<And>c'. k (i + length w) t c' \<noteq> None) \<Longrightarrow>
   lazy cl i (w @ t) c k \<noteq> None"
proof (induction w arbitrary: i)
  case Nil
  then show ?case using lazy_fallback[of k i t c cl] by simp
next
  case (Cons x w)
  from Cons.prems have "lazy cl (Suc i) (w @ t) c k \<noteq> None"
    by (intro Cons.IH) auto
  with Cons.prems show ?case by (auto split: option.splits)
qed

lemma rmatch_complete:
  "(s, t) \<in> rel r \<Longrightarrow> (\<And>c'. k (i + (length s - length t)) t c' \<noteq> None) \<Longrightarrow>
   rmatch r i s c k \<noteq> None"
proof (induction r arbitrary: i s t c k)
  case (Lit l)
  then show ?case by auto
next
  case (Plus cl)
  then obtain x w where s: "s = (x # w) @ t" and w: "inClass cl x" "\<forall>x \<in> set w. inClass cl x"
    by (auto simp: neq_Nil_conv)
  from Plus.prems(2) s have "star cl (Suc i) (w @ t) c k \<noteq> None"
    by (intro star_complete w) simp
  with s w show ?case by simp
next
  case (Star cl)
  then show ?case using star_complete[of _ cl k i t c] by auto
next
  case (LazyStar cl)
  then show ?case using lazy_complete[of _ cl k i t c] by auto
next
  case (Opt r)
  show ?case
  proof (cases "(s, t) \<in> rel r")
    case True
    have "rmatch r i s c k \<noteq> None"
      by (rule Opt.IH[OF True]) (rule Opt.prems(2))
    then show ?thesis by (auto split: option.splits)
  next
    case False
    with Opt.prems have "s = t" by simp
    with Opt.prems(2)[of c] show ?thesis by (auto split: option.splits)
  qed
next
  case (Seq a b)
  from Seq.prems(1) obtain u where u: "(s, u) \<in> rel a" "(u, t) \<in> rel b" by auto
  from rel_suffix[OF u(1)] rel_suffix[OF u(2)] obtain w1 w2 where w: "s = w1 @ u" "u = w2 @ t"
    by blast
  have "rmatch b (i + (length s - length u)) u c' k \<noteq> None" for c'
  proof (rule Seq.IH(2)[OF u(2)])
    fix c''
    from Seq.prems(2)[of c''] w
    show "k (i + (length s - length u) + (length u - length t)) t c'' \<noteq> None"
      by (simp add: add.assoc)
  qed
  then have "rmatch a i s c (\<lambda>i' s' c'. rmatch b i' s' c' k) \<noteq> None"
    by (intro Seq.IH(1)[OF u(1)])
  then show ?case by simp
next
  case (Alt a b)
  show ?case
  proof (cases "(s, t) \<in> rel a")
    case True
    have "rmatch a i s c k \<noteq> None"
      by (rule Alt.IH(1)[OF True]) (rule Alt.prems(2))
    then show ?thesis by (auto split: option.splits)
  next
    case False
    with Alt.prems(1) have b: "(s, t) \<in> rel b" by simp
    have "rmatch b i s c k \<noteq> None"
      by (rule Alt.IH(2)[OF b]) (rule Alt.prems(2))
    then show ?thesis by (auto split: option.splits)
  qed
next
  case (Cap g r)
  from Cap.prems(1) have r: "(s, t) \<in> rel r" by simp
  have "rmatch r i s c (\<lambda>i' s' c'. k i' s' (c'(g \<mapsto> (i, i')))) \<noteq> None"
    by (rule Cap.IH[OF r]) (rule Cap.prems(2))
  then show ?case by simp
next
  case EndText
  from EndText(1) EndText(2)[of c] show ?case by simp
qed

lemma search_complete:
  "n \<le> length s \<Longrightarrow> rmatch r (i + n) (drop n s) Map.empty (accept (i + n)) \<noteq> None \<Longrightarrow>
   search r i s \<noteq> None"
proof (induction s arbitrary: i n)
  case Nil
  then show ?case by simp
next
  case (Cons x xs)
  show ?case
  proof (cases n)
    case 0
    with Cons.prems show ?thesis by (auto split: option.splits)
  next
    case (Suc m)
    with Cons.prems have "search r (Suc i) xs \<noteq> None"
      by (intro Cons.IH[of m]) auto
    then show ?thesis by (auto split: option.splits)
  qed
qed

lemma allMatches_Nil_iff: "(allMatches r pos s None = []) = (search r pos s = None)"
  by (subst allMatches.simps) (auto split: option.splits)

lemma FindAllStringSubmatch_Nil_iff:
  "(FindAllStringSubmatch r s = []) = (search r 0 s = None)"
  by (simp add: FindAllStringSubmatch_def FindAllStringSubmatchIndex_def allMatches_Nil_iff)

text \<open>A pattern written as a sequence.\<close>

lemma rel_seqs_Nil [simp]: "rel (seqs []) = Id"
  by auto

lemma rel_seqs_Cons: "rel (seqs (r # rs)) = rel r O rel (seqs rs)"
  by (cases rs) auto

lemma rmatch_seqs_Cons:
  "rmatch (seqs (r # rs)) i s c k = rmatch r i s c (\<lambda>i' s' c'. rmatch (seqs rs) i' s' c' k)"
  by (cases rs) auto

section \<open>The simplified form is never reached\<close>

text \<open>What the channel pattern matches begins like a match of the message pattern.\<close>

lemma channelPattern_rel:
  assumes "(s, t) \<in> rel (channelPattern (NewParserWithConfig cfg))"
  shows "\<exists>w u. s = ''<|channel|>'' @ w @ ''<|message|>'' @ u \<and> w \<noteq> [] \<and> (\<forall>x \<in> set w. isWord x)"
proof -
  from assms obtain s1 s2 s3 where
    1: "(s, s1) \<in> rel (Lit ''<|channel|>'')" and
    2: "(s1, s2) \<in> rel (Cap 1 (Plus Word))" and
    3: "(s2, s3) \<in> rel (Lit ''<|message|>'')"
    unfolding NewParserWithConfig_def Parser.simps rel_seqs_Cons by blast
  from 2 obtain w where w: "s1 = w @ s2" "w \<noteq> []" "\<forall>x \<in> set w. isWord x" by auto
  from 1 3 w show ?thesis by auto
qed

lemma messagePattern_rel:
  assumes "w \<noteq> []" and "\<forall>x \<in> set w. isWord x"
  shows "(''<|channel|>'' @ w @ ''<|message|>'' @ u, []) \<in> rel (messagePattern (NewParserWithConfig cfg))"
proof -
  let ?s = "''<|channel|>'' @ w @ ''<|message|>'' @ u"
  have 1: "(?s, ?s) \<in> rel (Opt (Lit ''<|start|>''))" by simp
  have 2: "(?s, ?s) \<in> rel (Opt (Cap 1 (Plus Word)))" by simp
  have 3: "(?s, w @ ''<|message|>'' @ u) \<in> rel (Lit ''<|channel|>'')" by simp
  have 4: "(w @ ''<|message|>'' @ u, ''<|message|>'' @ u) \<in> rel (Cap 2 (Plus Word))"
    using assms by auto
  have 5: "(''<|message|>'' @ u, ''<|message|>'' @ u)
      \<in> rel (Opt (seqs [Plus Space, Lit ''to='', Cap 3 (Plus WordDot)]))" by simp
  have 6: "(''<|message|>'' @ u, ''<|message|>'' @ u)
      \<in> rel (Opt (seqs [Star Space, Lit ''<|constrain|>'', Plus Word]))" by simp
  have 7: "(''<|message|>'' @ u, u) \<in> rel (Lit ''<|message|>'')" by simp
  have 8: "(u, []) \<in> rel (Cap 4 (LazyStar AnyChar))"
    by (auto intro: exI[of _ u])
  have 9: "([], []) \<in> rel (Alt (seqs [Lit ''<|'', Alt (Lit ''end'') (Alt (Lit ''call'') (Lit ''return'')),
      Lit ''|>'']) EndText)" by simp
  show ?thesis
    unfolding NewParserWithConfig_def Parser.simps rel_seqs_Cons rel_seqs_Nil
    using 1 2 3 4 5 6 7 8 9 by blast
qed

lemma channel_match_message_match:
  assumes "FindAllStringSubmatch (channelPattern (NewParserWithConfig cfg)) content \<noteq> []"
  shows "FindAllStringSubmatch (messagePattern (NewParserWithConfig cfg)) content \<noteq> []"
proof -
  let ?p = "NewParserWithConfig cfg"
  from assms obtain res where "search (channelPattern ?p) 0 content = Some res"
    by (auto simp: FindAllStringSubmatch_Nil_iff)
  from search_Some[OF this] obtain n where n: "n \<le> length content"
    and m: "rmatch (channelPattern ?p) (0 + n) (drop n content) Map.empty (accept (0 + n)) = Some res"
    by blast
  from rmatch_sound[OF m] obtain t where "(drop n content, t) \<in> rel (channelPattern ?p)" by blast
  from channelPattern_rel[OF this] obtain w u where
    d: "drop n content = ''<|channel|>'' @ w @ ''<|message|>'' @ u" and
    w: "w \<noteq> []" "\<forall>x \<in> set w. isWord x" by blast
  have "rmatch (messagePattern ?p) (0 + n) (drop n content) Map.empty (accept (0 + n)) \<noteq> None"
    unfolding d by (rule rmatch_complete[OF messagePattern_rel[OF w]]) (simp add: accept_def)
  from search_complete[OF n this] show ?thesis
    by (simp add: FindAllStringSubmatch_Nil_iff)
qed

text \<open>\<open>ParseResponse\<close> without its second loop, over the matches of the channel pattern.\<close>

definition ParseResponse_without_simplified :: "Parser \<Rightarrow> string \<Rightarrow> parse_error + Message list" where
  "ParseResponse_without_simplified p content =
     (if content = [] then Inr []
      else
        case parseFullForm p (FindAllStringSubmatch (messagePattern p) content) [] of
          Inl err \<Rightarrow> Inl err
        | Inr messages \<Rightarrow> Inr (plainFinal p content (legacyCall p content messages)))"

text \<open>
  C10. Whenever the channel pattern has a match in a text, the message pattern has
  one too. So the loop over the matches of the channel pattern never builds a
  message, and \<open>ParseResponse\<close> is equal to the variant without that loop.
\<close>

theorem simplified_form_unreachable:
  "(FindAllStringSubmatch (channelPattern (NewParserWithConfig cfg)) content \<noteq> [] \<longrightarrow>
      FindAllStringSubmatch (messagePattern (NewParserWithConfig cfg)) content \<noteq> []) \<and>
   ParseResponse (NewParserWithConfig cfg) content =
     ParseResponse_without_simplified (NewParserWithConfig cfg) content"
proof
  let ?p = "NewParserWithConfig cfg"
  show "FindAllStringSubmatch (channelPattern ?p) content \<noteq> [] \<longrightarrow>
      FindAllStringSubmatch (messagePattern ?p) content \<noteq> []"
    using channel_match_message_match by blast
  show "ParseResponse ?p content = ParseResponse_without_simplified ?p content"
  proof (cases "FindAllStringSubmatch (messagePattern ?p) content = []")
    case True
    with channel_match_message_match[of cfg content]
    have "FindAllStringSubmatch (channelPattern ?p) content = []" by blast
    with True show ?thesis
      by (simp add: ParseResponse_def ParseResponse_without_simplified_def)
  next
    case False
    then show ?thesis
      by (auto simp: ParseResponse_def ParseResponse_without_simplified_def parseFullForm_eq
          split: option.splits sum.splits)
  qed
qed

theorem simplified_form_unreachable_witness:
  "FindAllStringSubmatch (channelPattern (NewParserWithConfig DefaultConfig))
     ''<|channel|>final<|message|>Hi<|end|>'' = [[''<|channel|>final<|message|>Hi<|end|>'', ''final'', ''Hi'']] \<and>
   FindAllStringSubmatch (messagePattern (NewParserWithConfig DefaultConfig))
     ''<|channel|>final<|message|>Hi<|end|>'' \<noteq> [] \<and>
   ParseResponse_without_simplified (NewParserWithConfig DefaultConfig)
     ''<|channel|>final<|message|>Hi<|end|>'' =
     Inr [\<lparr>Role = ''assistant'', Channel = ''final'', Content = ''Hi'', To = [], IsCall = False\<rparr>]"
proof -
  have c: "FindAllStringSubmatch (channelPattern (NewParserWithConfig DefaultConfig))
     ''<|channel|>final<|message|>Hi<|end|>'' = [[''<|channel|>final<|message|>Hi<|end|>'', ''final'', ''Hi'']]"
    by code_simp
  have r: "ParseResponse (NewParserWithConfig DefaultConfig) ''<|channel|>final<|message|>Hi<|end|>'' =
     Inr [\<lparr>Role = ''assistant'', Channel = ''final'', Content = ''Hi'', To = [], IsCall = False\<rparr>]"
    by code_simp
  from simplified_form_unreachable[of DefaultConfig "''<|channel|>final<|message|>Hi<|end|>''"] c r
  show ?thesis by simp
qed

section \<open>The terminator of a match of the message pattern\<close>

text \<open>The text of a match of the message pattern after its body, group 4: what the
  alternative of the terminators at the end of the pattern consumed.\<close>

definition terminator :: "string \<Rightarrow> rxmatch \<Rightarrow> string" where
  "terminator s m =
     (case m of (st, en, c) \<Rightarrow> (case c 4 of None \<Rightarrow> [] | Some (a, b) \<Rightarrow> substr s b en))"

lemma allMatches_elem:
  "m \<in> set (allMatches r pos s prev) \<Longrightarrow>
   \<exists>n \<le> length s. rmatch r (pos + n) (drop n s) Map.empty (accept (pos + n)) = Some m"
proof (induction r pos s prev rule: allMatches.induct)
  case (1 r pos s prev)
  have "search r pos s \<noteq> None"
  proof
    assume "search r pos s = None"
    with "1.prems" show False by (subst (asm) allMatches.simps) simp
  qed
  then obtain st en c where se: "search r pos s = Some (st, en, c)"
    by (cases "search r pos s") auto
  from search_bounds[OF se] have b: "pos \<le> st" "st \<le> en" "en \<le> pos + length s" by auto
  show ?case
  proof (cases "m = (st, en, c)")
    case True
    with search_Some[OF se] show ?thesis by simp
  next
    case False
    show ?thesis
    proof (cases "en = pos")
      case True
      with False "1.prems" se obtain x xs where s: "s = x # xs"
        and m: "m \<in> set (allMatches r (Suc pos) xs (Some en))"
        by (subst (asm) allMatches.simps) (auto split: list.splits if_splits)
      from "1.IH"(1)[OF se refl refl True s m] obtain n where
        "n \<le> length xs" "rmatch r (Suc pos + n) (drop n xs) Map.empty (accept (Suc pos + n)) = Some m"
        by blast
      with s show ?thesis by (intro exI[of _ "Suc n"]) simp
    next
      case ne: False
      with False "1.prems" se have m: "m \<in> set (allMatches r en (drop (en - pos) s) (Some en))"
        by (subst (asm) allMatches.simps) auto
      from "1.IH"(2)[OF se refl refl ne m] obtain n where
        n: "n \<le> length (drop (en - pos) s)"
        "rmatch r (en + n) (drop n (drop (en - pos) s)) Map.empty (accept (en + n)) = Some m"
        by blast
      from b have e: "en + n = pos + (n + (en - pos))" by simp
      from n b show ?thesis
        by (intro exI[of _ "n + (en - pos)"]) (simp add: e)
    qed
  qed
qed

text \<open>No occurrence of \<open><|call|>\<close> begins in the part of a match before its body.\<close>

definition noCall :: "string \<Rightarrow> bool" where
  "noCall h = (\<forall>x. Contains (h @ x) ''<|call|>'' = Contains x ''<|call|>'')"

lemma noCall_Nil [simp]: "noCall []"
  by (simp add: noCall_def)

lemma noCall_append: "noCall a \<Longrightarrow> noCall b \<Longrightarrow> noCall (a @ b)"
  by (simp add: noCall_def)

lemma noCall_chars: "\<forall>x \<in> set h. x \<noteq> CHR ''<'' \<Longrightarrow> noCall h"
  unfolding noCall_def by (induction h) auto

lemma noCall_literals:
  "noCall ''<|start|>''" "noCall ''<|channel|>''" "noCall ''to=''"
  "noCall ''<|constrain|>''" "noCall ''<|message|>''"
  by (simp_all add: noCall_def)

lemma inClass_not_lt:
  "cl \<noteq> AnyChar \<Longrightarrow> cl \<noteq> NotNewline \<Longrightarrow> inClass cl x \<Longrightarrow> x \<noteq> CHR ''<''"
  by (cases cl) (auto simp: isWord_def)

definition relNoCall :: "re \<Rightarrow> bool" where
  "relNoCall r = (\<forall>h t. (h @ t, t) \<in> rel r \<longrightarrow> noCall h)"

lemma relNoCall_Lit: "noCall l \<Longrightarrow> relNoCall (Lit l)"
  by (auto simp: relNoCall_def)

lemma relNoCall_Plus: "cl \<noteq> AnyChar \<Longrightarrow> cl \<noteq> NotNewline \<Longrightarrow> relNoCall (Plus cl)"
  by (auto simp: relNoCall_def intro!: noCall_chars dest: inClass_not_lt)

lemma relNoCall_Star: "cl \<noteq> AnyChar \<Longrightarrow> cl \<noteq> NotNewline \<Longrightarrow> relNoCall (Star cl)"
  by (auto simp: relNoCall_def intro!: noCall_chars dest: inClass_not_lt)

lemma relNoCall_Opt: "relNoCall r \<Longrightarrow> relNoCall (Opt r)"
  by (auto simp: relNoCall_def)

lemma relNoCall_Cap: "relNoCall r \<Longrightarrow> relNoCall (Cap g r)"
  by (auto simp: relNoCall_def)

lemma relNoCall_Seq: "relNoCall a \<Longrightarrow> relNoCall b \<Longrightarrow> relNoCall (Seq a b)"
  unfolding relNoCall_def[of "Seq a b"] rel.simps
proof (intro allI impI)
  fix h t
  assume ab: "relNoCall a" "relNoCall b" and m: "(h @ t, t) \<in> rel a O rel b"
  from m obtain u where u: "(h @ t, u) \<in> rel a" "(u, t) \<in> rel b" by auto
  from rel_suffix[OF u(2)] obtain h2 where h2: "u = h2 @ t" by blast
  from rel_suffix[OF u(1)] obtain h1 where h1: "h @ t = h1 @ u" by blast
  with h2 have h: "h = h1 @ h2" by simp
  from u h1 h2 ab have "noCall h1" "noCall h2"
    by (auto simp: relNoCall_def)
  with h show "noCall h" by (simp add: noCall_append)
qed

lemma relNoCall_seqs: "(\<And>r. r \<in> set rs \<Longrightarrow> relNoCall r) \<Longrightarrow> relNoCall (seqs rs)"
proof (induction rs)
  case Nil
  then show ?case by (simp add: relNoCall_def)
next
  case (Cons r rs)
  then have "relNoCall (Seq r (seqs rs))" by (intro relNoCall_Seq) auto
  then show ?case by (simp add: relNoCall_def rel_seqs_Cons)
qed

abbreviation messageHeader :: "re list" where
  "messageHeader \<equiv>
     [Opt (Lit ''<|start|>''), Opt (Cap 1 (Plus Word)), Lit ''<|channel|>'', Cap 2 (Plus Word),
      Opt (seqs [Plus Space, Lit ''to='', Cap 3 (Plus WordDot)]),
      Opt (seqs [Star Space, Lit ''<|constrain|>'', Plus Word]),
      Lit ''<|message|>'']"

abbreviation terminators :: re where
  "terminators \<equiv>
     Alt (seqs [Lit ''<|'', Alt (Lit ''end'') (Alt (Lit ''call'') (Lit ''return'')), Lit ''|>''])
         EndText"

lemma messageHeader_noCall: "relNoCall (seqs messageHeader)"
  by (intro relNoCall_seqs)
     (auto intro!: relNoCall_Opt relNoCall_Cap relNoCall_Lit relNoCall_Plus relNoCall_Star
        relNoCall_Seq noCall_literals)

lemma rmatch_seqs_append:
  "rmatch (seqs (xs @ ys)) i s c k =
     rmatch (seqs xs) i s c (\<lambda>i' s' c'. rmatch (seqs ys) i' s' c' k)"
proof (induction xs arbitrary: i s c k)
  case Nil
  then show ?case by simp
next
  case (Cons x xs)
  show ?case
    unfolding append_Cons rmatch_seqs_Cons Cons.IH ..
qed

lemma terminators_eval:
  "rmatch terminators j u c (accept st) = Some (a, b, c') \<Longrightarrow>
   a = st \<and> c' = c \<and>
   (prefix ''<|end|>'' u \<and> b = j + length ''<|end|>'' \<or>
    prefix ''<|call|>'' u \<and> b = j + length ''<|call|>'' \<or>
    prefix ''<|return|>'' u \<and> b = j + length ''<|return|>'' \<or>
    u = [] \<and> b = j)"
  by (auto simp: accept_def prefix_def split: if_splits option.splits)

lemma terminators_Some:
  assumes "rmatch terminators j u c (accept st) = Some (a, b, c')"
  shows "a = st \<and> c' = c \<and>
   (\<exists>t r. u = t @ r \<and> b = j + length t \<and>
          (t = ''<|end|>'' \<or> t = ''<|call|>'' \<or> t = ''<|return|>'' \<or> t = [] \<and> r = []))"
proof -
  from terminators_eval[OF assms] have ac: "a = st" "c' = c" and
    d: "prefix ''<|end|>'' u \<and> b = j + length ''<|end|>'' \<or>
    prefix ''<|call|>'' u \<and> b = j + length ''<|call|>'' \<or>
    prefix ''<|return|>'' u \<and> b = j + length ''<|return|>'' \<or>
    u = [] \<and> b = j" by blast+
  from d have "\<exists>t r. u = t @ r \<and> b = j + length t \<and>
          (t = ''<|end|>'' \<or> t = ''<|call|>'' \<or> t = ''<|return|>'' \<or> t = [] \<and> r = [])"
  proof (elim disjE conjE)
    assume "prefix ''<|end|>'' u" "b = j + length ''<|end|>''"
    then show ?thesis unfolding prefix_def by blast
  next
    assume "prefix ''<|call|>'' u" "b = j + length ''<|call|>''"
    then show ?thesis unfolding prefix_def by blast
  next
    assume "prefix ''<|return|>'' u" "b = j + length ''<|return|>''"
    then show ?thesis unfolding prefix_def by blast
  next
    assume "u = []" "b = j"
    then show ?thesis by simp
  qed
  with ac show ?thesis by blast
qed

lemma terminators_call:
  "prefix ''<|call|>'' u \<Longrightarrow> rmatch terminators j u c (accept st) \<noteq> None"
  by (auto simp: accept_def prefix_def)

lemma body_lazy:
  "lazy AnyChar j s c (\<lambda>i' s' c'. rmatch terminators i' s' (c'(4 \<mapsto> (i0, i'))) (accept st))
     = Some (a, b, c') \<Longrightarrow>
   \<exists>bd t r. s = bd @ t @ r \<and> a = st \<and> c' 4 = Some (i0, j + length bd) \<and>
     b = j + length bd + length t \<and>
     (t = ''<|end|>'' \<or> t = ''<|call|>'' \<or> t = ''<|return|>'' \<or> t = [] \<and> r = []) \<and>
     (\<forall>q < length bd. \<not> prefix ''<|call|>'' (drop q s))"
proof (induction s arbitrary: j)
  case Nil
  then have "rmatch terminators j [] (c(4 \<mapsto> (i0, j))) (accept st) = Some (a, b, c')"
    by (simp only: lazy.simps)
  from terminators_Some[OF this] show ?case by auto
next
  case (Cons x xs)
  show ?case
  proof (cases "rmatch terminators j (x # xs) (c(4 \<mapsto> (i0, j))) (accept st)")
    case (Some res)
    with Cons.prems have "rmatch terminators j (x # xs) (c(4 \<mapsto> (i0, j))) (accept st) = Some (a, b, c')"
      by (simp only: lazy.simps option.case)
    from terminators_Some[OF this] obtain t r where
      "x # xs = t @ r" "a = st" "c' = c(4 \<mapsto> (i0, j))" "b = j + length t"
      "t = ''<|end|>'' \<or> t = ''<|call|>'' \<or> t = ''<|return|>'' \<or> t = [] \<and> r = []" by blast
    then show ?thesis
      by (intro exI[of _ "[]"] exI[of _ t] exI[of _ r]) simp
  next
    case None
    with Cons.prems have
      "lazy AnyChar (Suc j) xs c (\<lambda>i' s' c'. rmatch terminators i' s' (c'(4 \<mapsto> (i0, i'))) (accept st))
         = Some (a, b, c')"
      by (simp only: lazy.simps option.case inClass.simps if_True)
    from Cons.IH[OF this] obtain bd t r where
      r: "xs = bd @ t @ r" "a = st" "c' 4 = Some (i0, Suc j + length bd)"
      "b = Suc j + length bd + length t"
      "t = ''<|end|>'' \<or> t = ''<|call|>'' \<or> t = ''<|return|>'' \<or> t = [] \<and> r = []"
      "\<forall>q < length bd. \<not> prefix ''<|call|>'' (drop q xs)" by blast
    from None terminators_call[of "x # xs" j "c(4 \<mapsto> (i0, j))" st]
    have n: "\<not> prefix ''<|call|>'' (x # xs)" by blast
    have "\<forall>q < length (x # bd). \<not> prefix ''<|call|>'' (drop q (x # xs))"
    proof (intro allI impI)
      fix q assume "q < length (x # bd)"
      with n r(6) show "\<not> prefix ''<|call|>'' (drop q (x # xs))"
        by (cases q) auto
    qed
    with r show ?thesis
      by (intro exI[of _ "x # bd"] exI[of _ t] exI[of _ r]) simp
  qed
qed

lemma message_match_shape:
  assumes "rmatch (messagePattern (NewParserWithConfig cfg)) i s Map.empty (accept i) = Some (st, en, c)"
  shows "\<exists>h bd t r. s = h @ bd @ t @ r \<and> st = i \<and> noCall h \<and>
     c 4 = Some (i + length h, i + length h + length bd) \<and>
     en = i + length h + length bd + length t \<and>
     (t = ''<|end|>'' \<or> t = ''<|call|>'' \<or> t = ''<|return|>'' \<or> t = [] \<and> r = []) \<and>
     (\<forall>q < length bd. \<not> prefix ''<|call|>'' (drop q (bd @ t @ r)))"
proof -
  have mp: "messagePattern (NewParserWithConfig cfg) =
      seqs (messageHeader @ [Cap 4 (LazyStar AnyChar), terminators])"
    by (simp add: NewParserWithConfig_def)
  from assms have "rmatch (seqs messageHeader) i s Map.empty
      (\<lambda>i' s' c'. rmatch (seqs [Cap 4 (LazyStar AnyChar), terminators]) i' s' c' (accept i))
      = Some (st, en, c)"
    unfolding mp rmatch_seqs_append .
  from rmatch_sound[OF this] obtain h u c1 where
    h: "s = h @ u" "(s, u) \<in> rel (seqs messageHeader)"
    "rmatch (seqs [Cap 4 (LazyStar AnyChar), terminators]) (i + length h) u c1 (accept i)
       = Some (st, en, c)" by blast
  from h(1,2) messageHeader_noCall have nc: "noCall h"
    unfolding relNoCall_def by blast
  from h(3) have "lazy AnyChar (i + length h) u c1
      (\<lambda>i' s' c'. rmatch terminators i' s' (c'(4 \<mapsto> (i + length h, i'))) (accept i))
      = Some (st, en, c)" by simp
  from body_lazy[OF this] obtain bd t r where
    "u = bd @ t @ r" "st = i" "c 4 = Some (i + length h, i + length h + length bd)"
    "en = i + length h + length bd + length t"
    "t = ''<|end|>'' \<or> t = ''<|call|>'' \<or> t = ''<|return|>'' \<or> t = [] \<and> r = []"
    "\<forall>q < length bd. \<not> prefix ''<|call|>'' (drop q u)" by blast
  with h(1) nc show ?thesis
    by (intro exI[of _ h] exI[of _ bd] exI[of _ t] exI[of _ r]) simp
qed


lemma Contains_iff: "Contains s sub = (\<exists>j \<le> length s. prefix sub (drop j s))"
proof (induction s)
  case Nil
  then show ?case by simp
next
  case (Cons x xs)
  have "(\<exists>j \<le> length (x # xs). prefix sub (drop j (x # xs))) =
        (prefix sub (x # xs) \<or> (\<exists>j \<le> length xs. prefix sub (drop j xs)))"
  proof
    assume "\<exists>j \<le> length (x # xs). prefix sub (drop j (x # xs))"
    then obtain j where j: "j \<le> length (x # xs)" "prefix sub (drop j (x # xs))" by blast
    then show "prefix sub (x # xs) \<or> (\<exists>j \<le> length xs. prefix sub (drop j xs))"
      by (cases j) auto
  next
    assume "prefix sub (x # xs) \<or> (\<exists>j \<le> length xs. prefix sub (drop j xs))"
    then show "\<exists>j \<le> length (x # xs). prefix sub (drop j (x # xs))"
    proof
      assume "prefix sub (x # xs)"
      then show ?thesis by (intro exI[of _ 0]) simp
    next
      assume "\<exists>j \<le> length xs. prefix sub (drop j xs)"
      then obtain j where "j \<le> length xs" "prefix sub (drop j xs)" by blast
      then show ?thesis by (intro exI[of _ "Suc j"]) simp
    qed
  qed
  with Cons.IH show ?case by simp
qed

lemma call_in_match:
  assumes h: "noCall h"
    and t: "t = ''<|end|>'' \<or> t = ''<|call|>'' \<or> t = ''<|return|>'' \<or> t = [] \<and> r = []"
    and bd: "\<forall>q < length bd. \<not> prefix ''<|call|>'' (drop q (bd @ t @ r))"
  shows "Contains (h @ bd @ t) ''<|call|>'' = (t = ''<|call|>'')"
proof -
  have "Contains (bd @ t) ''<|call|>'' = (t = ''<|call|>'')"
  proof
    assume "Contains (bd @ t) ''<|call|>''"
    then obtain j where j: "j \<le> length (bd @ t)" "prefix ''<|call|>'' (drop j (bd @ t))"
      unfolding Contains_iff by blast
    have "\<not> j < length bd"
    proof
      assume l: "j < length bd"
      with j(2) have "prefix ''<|call|>'' (drop j (bd @ t) @ r)"
        by (intro prefix_prefix)
      with l have "prefix ''<|call|>'' (drop j (bd @ t @ r))" by simp
      with bd l show False by blast
    qed
    with j have "prefix ''<|call|>'' (drop (j - length bd) t)" by simp
    moreover have "j - length bd \<le> length t" using j(1) by simp
    ultimately have "Contains t ''<|call|>''" unfolding Contains_iff by blast
    with t show "t = ''<|call|>''" by auto
  next
    assume "t = ''<|call|>''"
    then have "prefix ''<|call|>'' (drop (length bd) (bd @ t))" by simp
    then show "Contains (bd @ t) ''<|call|>''"
      unfolding Contains_iff by (intro exI[of _ "length bd"]) simp
  qed
  with h show ?thesis by (simp add: noCall_def)
qed

lemma message_match_IsCall:
  assumes "m \<in> set (FindAllStringSubmatchIndex (messagePattern (NewParserWithConfig cfg)) content)"
  shows "(terminator content m = ''<|end|>'' \<or> terminator content m = ''<|call|>'' \<or>
          terminator content m = ''<|return|>'' \<or>
          terminator content m = [] \<and> fst (snd m) = length content) \<and>
         IsCall (fullFormMessage (NewParserWithConfig cfg)
                   (submatches (messagePattern (NewParserWithConfig cfg)) content m)) =
           (terminator content m = ''<|call|>'')"
proof -
  let ?p = "NewParserWithConfig cfg"
  obtain st en c where m: "m = (st, en, c)" by (cases m)
  from assms allMatches_elem[of m "messagePattern ?p" 0 content None] obtain n where
    n: "n \<le> length content" and
    r: "rmatch (messagePattern ?p) n (drop n content) Map.empty (accept n) = Some (st, en, c)"
    by (auto simp: FindAllStringSubmatchIndex_def m)
  from message_match_shape[OF r] obtain h bd t r where
    s: "drop n content = h @ bd @ t @ r" and st: "st = n" and h: "noCall h"
    and c4: "c 4 = Some (n + length h, n + length h + length bd)"
    and en: "en = n + length h + length bd + length t"
    and t: "t = ''<|end|>'' \<or> t = ''<|call|>'' \<or> t = ''<|return|>'' \<or> t = [] \<and> r = []"
    and bd: "\<forall>q < length bd. \<not> prefix ''<|call|>'' (drop q (bd @ t @ r))" by blast
  have whole: "substr content st en = h @ bd @ t"
    by (simp add: substr_def st en s)
  have "drop (n + length h + length bd) content = drop (length h + length bd) (drop n content)"
    by (simp add: add.commute add.left_commute)
  then have tm: "terminator content m = t"
    by (simp add: terminator_def m c4 substr_def en s)
  have "t = [] \<and> r = [] \<longrightarrow> en = length content"
  proof
    assume "t = [] \<and> r = []"
    with s have "length (drop n content) = length h + length bd" by simp
    with n en \<open>t = [] \<and> r = []\<close> show "en = length content" by simp
  qed
  with t have 1: "t = ''<|end|>'' \<or> t = ''<|call|>'' \<or> t = ''<|return|>'' \<or>
      t = [] \<and> en = length content" by blast
  have "IsCall (fullFormMessage ?p (submatches (messagePattern ?p) content m)) =
      Contains (h @ bd @ t) ''<|call|>''"
    by (simp add: fullFormMessage_def m whole)
  also have "\<dots> = (t = ''<|call|>'')"
    by (rule call_in_match[OF h t bd])
  finally have 2: "IsCall (fullFormMessage ?p (submatches (messagePattern ?p) content m)) =
      (t = ''<|call|>'')" .
  from 1 have 3: "t = ''<|end|>'' \<or> t = ''<|call|>'' \<or> t = ''<|return|>'' \<or>
      t = [] \<and> fst (snd m) = length content" by (simp add: m)
  from 2 3 show ?thesis unfolding tm by blast
qed

text \<open>
  C8. The messages of the full-form rule are built from the matches of the message
  pattern, one for one, and \<open>IsCall\<close> of a message is true exactly when the
  terminator of its match is \<open><|call|>\<close>. The terminator of a match is
  \<open><|end|>\<close>, \<open><|call|>\<close> or \<open><|return|>\<close>, or it is empty and the match ends
  at the end of the text.
\<close>

theorem IsCall_iff_call_terminator:
  assumes "ParseResponse (NewParserWithConfig cfg) content = Inr messages"
    and "FindAllStringSubmatchIndex (messagePattern (NewParserWithConfig cfg)) content = matches"
    and "matches \<noteq> []"
  shows "length messages = length matches \<and>
         (\<forall>j < length matches.
            (terminator content (matches ! j) = ''<|end|>'' \<or>
             terminator content (matches ! j) = ''<|call|>'' \<or>
             terminator content (matches ! j) = ''<|return|>'' \<or>
             terminator content (matches ! j) = [] \<and> fst (snd (matches ! j)) = length content) \<and>
            IsCall (messages ! j) = (terminator content (matches ! j) = ''<|call|>''))"
proof -
  let ?p = "NewParserWithConfig cfg"
  from assms(2,3) have ne: "FindAllStringSubmatch (messagePattern ?p) content \<noteq> []"
    by (simp add: FindAllStringSubmatch_def)
  with NewParser_no_match_empty(1)[of cfg] have "content \<noteq> []" by auto
  from ParseResponse_full_form[OF assms(1) this ne] assms(2)
  have ms: "messages = map (\<lambda>m. fullFormMessage ?p (submatches (messagePattern ?p) content m)) matches"
    by (simp add: FindAllStringSubmatch_def)
  show ?thesis
  proof (intro conjI allI impI)
    show "length messages = length matches" by (simp add: ms)
  next
    fix j assume j: "j < length matches"
    with assms(2) have "matches ! j \<in> set (FindAllStringSubmatchIndex (messagePattern ?p) content)"
      by simp
    from message_match_IsCall[OF this] j
    show "terminator content (matches ! j) = ''<|end|>'' \<or>
             terminator content (matches ! j) = ''<|call|>'' \<or>
             terminator content (matches ! j) = ''<|return|>'' \<or>
             terminator content (matches ! j) = [] \<and> fst (snd (matches ! j)) = length content"
      and "IsCall (messages ! j) = (terminator content (matches ! j) = ''<|call|>'')"
      by (simp_all add: ms)
  qed
qed

theorem IsCall_iff_call_terminator_witness:
  "map (terminator ''<|channel|>a<|message|>x<|call|><|channel|>b<|message|>y<|end|><|channel|>c<|message|>z'')
     (FindAllStringSubmatchIndex (messagePattern (NewParserWithConfig DefaultConfig))
        ''<|channel|>a<|message|>x<|call|><|channel|>b<|message|>y<|end|><|channel|>c<|message|>z'') =
     [''<|call|>'', ''<|end|>'', []] \<and>
   ParseResponse (NewParserWithConfig DefaultConfig)
     ''<|channel|>a<|message|>x<|call|><|channel|>b<|message|>y<|end|><|channel|>c<|message|>z'' =
     Inr [\<lparr>Role = ''assistant'', Channel = ''a'', Content = ''x'', To = [], IsCall = True\<rparr>,
          \<lparr>Role = ''assistant'', Channel = ''b'', Content = ''y'', To = [], IsCall = False\<rparr>,
          \<lparr>Role = ''assistant'', Channel = ''c'', Content = ''z'', To = [], IsCall = False\<rparr>]"
proof -
  let ?content = "''<|channel|>a<|message|>x<|call|><|channel|>b<|message|>y<|end|><|channel|>c<|message|>z''"
  let ?matches = "FindAllStringSubmatchIndex (messagePattern (NewParserWithConfig DefaultConfig)) ?content"
  have t: "map (terminator ?content) ?matches = [''<|call|>'', ''<|end|>'', []]"
    by code_simp
  then have ne: "?matches \<noteq> []" by auto
  have p: "ParseResponse (NewParserWithConfig DefaultConfig) ?content =
     Inr [\<lparr>Role = ''assistant'', Channel = ''a'', Content = ''x'', To = [], IsCall = True\<rparr>,
          \<lparr>Role = ''assistant'', Channel = ''b'', Content = ''y'', To = [], IsCall = False\<rparr>,
          \<lparr>Role = ''assistant'', Channel = ''c'', Content = ''z'', To = [], IsCall = False\<rparr>]"
    by code_simp
  from IsCall_iff_call_terminator[OF p refl ne] t p show ?thesis by blast
qed

end
